theory Spec2Isabelle
  imports Main "HOL-Library.Word" "HOL-Library.Multiset"
begin

section \<open>The consistent-hash ring (package consistenthash)\<close>

text \<open>
  The ring is the Go struct \<^verbatim>\<open>Map\<close>: the pluggable hash function, the number of
  virtual nodes per member, the sorted slice of virtual-node hashes and the table from
  a virtual-node hash to its member. A hash is a \<^verbatim>\<open>uint32\<close>; the ring stores it
  converted to \<^verbatim>\<open>int\<close> (64 bits wide on the platforms the package targets, so the
  conversion is the unsigned value and never wraps). Go strings and byte slices are
  byte sequences: \<open>string\<close>. The record is \<open>Map_ring\<close>, the name \<open>Map\<close> being
  that of the library theory of maps.
\<close>

type_synonym Hash = "string \<Rightarrow> 32 word"

record Map_ring =
  hash :: Hash
  replicas :: int
  keys :: "int list"
  hashMap :: "int \<rightharpoonup> string"

text \<open>
  A Go panic is a value of its own. The ring can raise the runtime error
  \<^verbatim>\<open>slice bounds out of range [lo:hi]\<close>; the cache group panics with a message.
\<close>

datatype panic = SliceBoundsOutOfRange nat nat | PanicMsg string

subsection \<open>Library routines the ring calls\<close>

text \<open>
  \<^verbatim>\<open>strconv.Itoa\<close>: the decimal digits of an integer, with a minus sign in front
  of a negative one.
\<close>

definition digit_char :: "nat \<Rightarrow> char" where
  "digit_char d = ''0123456789'' ! d"

function nat_digits :: "nat \<Rightarrow> string" where
  "nat_digits n =
     (if n < 10 then [digit_char n] else nat_digits (n div 10) @ [digit_char (n mod 10)])"
  by pat_completeness auto
termination
  by (relation "measure (\<lambda>n. n)") auto

definition Itoa :: "int \<Rightarrow> string" where
  "Itoa i = (if i < 0 then CHR ''-'' # nat_digits (nat (- i)) else nat_digits (nat i))"

text \<open>
  \<^verbatim>\<open>sort.Search(n, f)\<close>: the binary search of the Go library,
  \<^verbatim>\<open>i, j := 0, n; for i < j { h := int(uint(i+j) >> 1); if !f(h) { i = h + 1 } else { j = h } }; return i\<close>.
  The indices are slice lengths, so \<open>i + j\<close> does not overflow.
\<close>

function Search_loop :: "(nat \<Rightarrow> bool) \<Rightarrow> nat \<Rightarrow> nat \<Rightarrow> nat" where
  "Search_loop f i j =
     (if i < j
      then (let h = (i + j) div 2
            in if \<not> f h then Search_loop f (h + 1) j else Search_loop f i h)
      else i)"
  by pat_completeness auto
termination
  by (relation "measure (\<lambda>(f, i, j). j - i)") auto

definition Search :: "nat \<Rightarrow> (nat \<Rightarrow> bool) \<Rightarrow> nat" where
  "Search n f = Search_loop f 0 n"

text \<open>\<^verbatim>\<open>sort.SearchInts(a, x)\<close> is \<^verbatim>\<open>sort.Search(len(a), func(i) { return a[i] >= x })\<close>.\<close>

definition SearchInts :: "int list \<Rightarrow> int \<Rightarrow> nat" where
  "SearchInts a x = Search (length a) (\<lambda>i. a ! i \<ge> x)"

text \<open>Reading a Go map at a key it does not hold gives the zero value, the empty string.\<close>

definition map_index :: "(int \<rightharpoonup> string) \<Rightarrow> int \<Rightarrow> string" where
  "map_index mp k = (case mp k of None \<Rightarrow> [] | Some v \<Rightarrow> v)"

subsection \<open>New and its options\<close>

text \<open>
  \<^verbatim>\<open>New(opts...)\<close> starts from the default hash (\<^verbatim>\<open>crc32.ChecksumIEEE\<close>, a
  parameter here), 150 replicas, no keys and an empty table, and applies the options in
  order. The two options of the package are \<^verbatim>\<open>Replicas\<close> and \<^verbatim>\<open>HashFunc\<close>.
\<close>

datatype ConsOptions = Replicas int | HashFunc Hash

definition defaultReplicas :: int where
  "defaultReplicas = 150"

fun apply_opt :: "ConsOptions \<Rightarrow> Map_ring \<Rightarrow> Map_ring" where
  "apply_opt (Replicas r) m = m\<lparr>replicas := r\<rparr>"
| "apply_opt (HashFunc h) m = m\<lparr>hash := h\<rparr>"

definition New :: "Hash \<Rightarrow> ConsOptions list \<Rightarrow> Map_ring" where
  "New defaultHash opts =
     fold apply_opt opts
       \<lparr>hash = defaultHash, replicas = defaultReplicas, keys = [], hashMap = (\<lambda>_. None)\<rparr>"

subsection \<open>Add, Get and Remove\<close>

text \<open>
  The position of replica \<open>i\<close> of a member:
  \<^verbatim>\<open>int(m.hash([]byte(strconv.Itoa(i) + key)))\<close>.
\<close>

definition replica_hash :: "Map_ring \<Rightarrow> int \<Rightarrow> string \<Rightarrow> int" where
  "replica_hash m i key = uint (hash m (Itoa i @ key))"

text \<open>
  The inner loop of \<^verbatim>\<open>Add\<close>, \<^verbatim>\<open>for i := 0; i < m.replicas; i++\<close>: append the hash
  and point it at the member.
\<close>

function Add_replicas :: "Map_ring \<Rightarrow> string \<Rightarrow> int \<Rightarrow> Map_ring" where
  "Add_replicas m key i =
     (if i < replicas m
      then (let h = replica_hash m i key
            in Add_replicas (m\<lparr>keys := keys m @ [h], hashMap := (hashMap m)(h \<mapsto> key)\<rparr>) key (i + 1))
      else m)"
  by pat_completeness auto
termination
  by (relation "measure (\<lambda>(m, key, i). nat (replicas m - i))") auto

text \<open>The outer loop over the members, then \<^verbatim>\<open>sort.Ints(m.keys)\<close>.\<close>

fun Add_keys :: "Map_ring \<Rightarrow> string list \<Rightarrow> Map_ring" where
  "Add_keys m [] = m"
| "Add_keys m (key # rest) = Add_keys (Add_replicas m key 0) rest"

definition Add :: "Map_ring \<Rightarrow> string list \<Rightarrow> Map_ring" where
  "Add m members = (let m' = Add_keys m members in m'\<lparr>keys := sort (keys m')\<rparr>)"

text \<open>
  \<^verbatim>\<open>Get\<close>: the empty string on an empty ring; otherwise the member of the first
  virtual node at or after the key's hash, index \<^verbatim>\<open>idx % len(m.keys)\<close>.
\<close>

definition Get :: "Map_ring \<Rightarrow> string \<Rightarrow> string" where
  "Get m key =
     (if length (keys m) = 0 then []
      else (let h = uint (hash m key);
                idx = Search (length (keys m)) (\<lambda>i. keys m ! i \<ge> h)
            in map_index (hashMap m) (keys m ! (idx mod length (keys m)))))"

text \<open>
  \<^verbatim>\<open>Remove\<close>: for each replica, \<^verbatim>\<open>idx := sort.SearchInts(m.keys, hash)\<close>, then
  \<^verbatim>\<open>m.keys = append(m.keys[:idx], m.keys[idx+1:]...)\<close> and \<^verbatim>\<open>delete(m.hashMap, hash)\<close>.
  The slice expression \<^verbatim>\<open>m.keys[idx+1:]\<close> panics when \<open>idx + 1\<close> exceeds the length,
  which is when the search ran off the end of the ring.
\<close>

function Remove_loop :: "Map_ring \<Rightarrow> string \<Rightarrow> int \<Rightarrow> panic + Map_ring" where
  "Remove_loop m key i =
     (if i < replicas m
      then (let h = replica_hash m i key;
                idx = SearchInts (keys m) h
            in if length (keys m) < idx + 1
               then Inl (SliceBoundsOutOfRange (idx + 1) (length (keys m)))
               else Remove_loop
                      (m\<lparr>keys := take idx (keys m) @ drop (idx + 1) (keys m),
                         hashMap := (hashMap m)(h := None)\<rparr>) key (i + 1))
      else Inr m)"
  by pat_completeness auto
termination
  by (relation "measure (\<lambda>(m, key, i). nat (replicas m - i))") auto

definition Remove :: "Map_ring \<Rightarrow> string \<Rightarrow> panic + Map_ring" where
  "Remove m key = Remove_loop m key 0"

text \<open>
  The rings a program can hold: the one \<^verbatim>\<open>New\<close> makes, and what \<^verbatim>\<open>Add\<close> and a
  \<^verbatim>\<open>Remove\<close> that returns make of such a ring.
\<close>

inductive ring_reachable :: "Map_ring \<Rightarrow> bool" where
  reach_New: "ring_reachable (New defaultHash opts)"
| reach_Add: "ring_reachable m \<Longrightarrow> ring_reachable (Add m members)"
| reach_Remove: "ring_reachable m \<Longrightarrow> Remove m key = Inr m' \<Longrightarrow> ring_reachable m'"

text \<open>
  The virtual-node hashes of a member from replica \<open>i\<close> on: the values the loops of
  \<^verbatim>\<open>Add\<close> and \<^verbatim>\<open>Remove\<close> compute, in order.
\<close>

definition replica_hashes :: "Map_ring \<Rightarrow> string \<Rightarrow> int \<Rightarrow> int list" where
  "replica_hashes m key i = map (\<lambda>j. replica_hash m j key) [i..replicas m - 1]"

text \<open>
  The virtual nodes a list of members brings to the ring, each hash paired with its
  member, in the order \<^verbatim>\<open>Add\<close> inserts them; and the hashes alone.
\<close>

definition vnodes :: "Map_ring \<Rightarrow> string list \<Rightarrow> (int \<times> string) list" where
  "vnodes m members = concat (map (\<lambda>mem. map (\<lambda>h. (h, mem)) (replica_hashes m mem 0)) members)"

definition ring_hashes :: "Map_ring \<Rightarrow> string list \<Rightarrow> int list" where
  "ring_hashes m members = concat (map (\<lambda>mem. replica_hashes m mem 0) members)"

text \<open>A hash function a caller can plug in with \<^verbatim>\<open>HashFunc\<close>: the sum of the bytes.\<close>

definition byte_sum :: Hash where
  "byte_sum s = of_nat (sum_list (map of_char s))"

section \<open>The cache group (package lc\_cache)\<close>

subsection \<open>Values, memory and errors\<close>

text \<open>
  A \<^verbatim>\<open>[]byte\<close> is a reference into memory, or nil; memory is the sequence of the
  byte buffers allocated so far, a reference being an index into it. A \<^verbatim>\<open>ByteView\<close>
  holds one slice, its field \<^verbatim>\<open>b\<close>. A \<^verbatim>\<open>time.Time\<close> is an instant, counted from
  the zero time, so that \<^verbatim>\<open>IsZero\<close> is the comparison with 0. An \<^verbatim>\<open>error\<close> carries
  its message; the two errors the group makes are \<^verbatim>\<open>fmt.Errorf("key is required")\<close>,
  the spec's InvalidKey, and \<^verbatim>\<open>fmt.Errorf("data not found")\<close>, its NotFound. A pair
  \<^verbatim>\<open>(T, error)\<close> is a pair whose second component is \<open>None\<close> for \<^verbatim>\<open>nil\<close>.
\<close>

type_synonym byte = "8 word"
type_synonym ref = nat
type_synonym slice = "ref option"
type_synonym memory = "byte list list"
type_synonym time = int

datatype ByteView = ByteView slice

datatype error = Errorf string

definition InvalidKey :: error where
  "InvalidKey = Errorf ''key is required''"

definition NotFound :: error where
  "NotFound = Errorf ''data not found''"

definition IsZero :: "time \<Rightarrow> bool" where
  "IsZero t = (t = 0)"

definition slice_bytes :: "memory \<Rightarrow> slice \<Rightarrow> byte list" where
  "slice_bytes mem s = (case s of None \<Rightarrow> [] | Some r \<Rightarrow> mem ! r)"

fun view_bytes :: "memory \<Rightarrow> ByteView \<Rightarrow> byte list" where
  "view_bytes mem (ByteView s) = slice_bytes mem s"

text \<open>
  Modelled from the spec: \<^verbatim>\<open>cloneBytes\<close>, whose source file is not among the sources.
  The spec has it "clone the returned bytes into an owned, immutable buffer": a new
  buffer with the same content, which nothing else refers to.
\<close>

definition cloneBytes :: "memory \<Rightarrow> slice \<Rightarrow> memory \<times> slice" where
  "cloneBytes mem s = (mem @ [slice_bytes mem s], Some (length mem))"

subsection \<open>The collaborators\<close>

text \<open>
  The loader (\<^verbatim>\<open>Getter\<close>), the peer picker and the peers are interfaces the caller
  implements: functions here. \<^verbatim>\<open>PickPeer(key)\<close> returns \<^verbatim>\<open>(peer, ok, isSelf)\<close>; the
  peer it returns is an object the group can call, never the nil interface. The slices
  a loader or a peer returns refer to buffers of the memory the call starts with.
\<close>

type_synonym Getter = "string \<Rightarrow> slice \<times> bool \<times> time"

record PeerGetter =
  peer_Get :: "string \<Rightarrow> string \<Rightarrow> slice \<times> error option"
  peer_Delete :: "string \<Rightarrow> string \<Rightarrow> bool \<times> error option"

type_synonym PeerPicker = "string \<Rightarrow> PeerGetter \<times> bool \<times> bool"

text \<open>
  Modelled from the spec: the bounded store (the type \<^verbatim>\<open>cache\<close> of the field
  \<^verbatim>\<open>mainCache\<close>), whose source file is not among the sources. The group only calls its
  operations \<^verbatim>\<open>get\<close>, \<^verbatim>\<open>add\<close>, \<^verbatim>\<open>addWithExpiration\<close> and \<^verbatim>\<open>delete\<close> and builds it
  with \<^verbatim>\<open>cache{cacheBytes: n}\<close>; they are parameters, over any type \<open>'c\<close> of store
  states. A read may reorder or purge entries, so every operation returns the store.
\<close>

record 'c cache_ops =
  cache_new :: "64 word \<Rightarrow> 'c"
  cache_get :: "'c \<Rightarrow> string \<Rightarrow> (ByteView \<times> bool) \<times> 'c"
  cache_add :: "'c \<Rightarrow> string \<Rightarrow> ByteView \<Rightarrow> 'c"
  cache_addWithExpiration :: "'c \<Rightarrow> string \<Rightarrow> ByteView \<Rightarrow> time \<Rightarrow> 'c"
  cache_delete :: "'c \<Rightarrow> string \<Rightarrow> bool \<times> 'c"

text \<open>
  The struct \<^verbatim>\<open>Group\<close>. Its field \<^verbatim>\<open>loader\<close>, the call deduplicator, keeps a record
  only while a call is in flight; one caller at a time is modelled, so it has no state.
\<close>

record 'c Group =
  name :: string
  getter :: Getter
  mainCache :: 'c
  peers :: "PeerPicker option"

text \<open>
  What a call changes outside the group: the memory, and the keys the loader has been
  invoked with, oldest first. The second is ghost state: it records that a run reached
  the loader.
\<close>

record world =
  memory :: memory
  loads :: "string list"

text \<open>
  Modelled from the spec: \<^verbatim>\<open>singleflight.Group.Do\<close>, whose source file is not among
  the sources. With no call in flight it "invokes producer synchronously on the calling
  execution context" and returns its result.
\<close>

definition Do :: "string \<Rightarrow> (unit \<Rightarrow> 'r) \<Rightarrow> 'r" where
  "Do key fn = fn ()"

subsection \<open>Registration\<close>

definition RegisterPeers :: "'c Group \<Rightarrow> PeerPicker option \<Rightarrow> panic + 'c Group" where
  "RegisterPeers g picker =
     (if peers g \<noteq> None then Inl (PanicMsg ''RegisterPeerPicker called multiple times'')
      else Inr (g\<lparr>peers := picker\<rparr>))"

text \<open>
  \<^verbatim>\<open>NewGroup\<close> works on the package's table \<^verbatim>\<open>groups\<close>; the table after the call is
  returned beside the result, also when the call panics.
\<close>

definition NewGroup ::
  "'c cache_ops \<Rightarrow> (string \<rightharpoonup> 'c Group) \<Rightarrow> string \<Rightarrow> 64 word \<Rightarrow> Getter option
   \<Rightarrow> (panic + 'c Group) \<times> (string \<rightharpoonup> 'c Group)" where
  "NewGroup ops groups nm cacheBytes gt =
     (case gt of
        None \<Rightarrow> (Inl (PanicMsg ''nil Getter''), groups)
      | Some get \<Rightarrow>
          (let g = \<lparr>name = nm, getter = get, mainCache = cache_new ops cacheBytes, peers = None\<rparr>
           in (Inr g, groups(nm \<mapsto> g))))"

subsection \<open>Get\<close>

text \<open>
  The methods \<^verbatim>\<open>Get\<close> and \<^verbatim>\<open>Delete\<close> of the group are \<open>Group_Get\<close> and
  \<open>Group_Delete\<close>, the ring having a \<^verbatim>\<open>Get\<close> of its own. Each takes the group and
  returns it as the call leaves it. The lines the code writes to the log are left out.
  In \<^verbatim>\<open>load\<close>, a miss of the store on the owner's path falls through to
  \<^verbatim>\<open>getLocally\<close>, which asks the store a second time.
\<close>

definition getFromPeer ::
  "'c Group \<Rightarrow> world \<Rightarrow> PeerGetter \<Rightarrow> string \<Rightarrow> (ByteView \<times> error option) \<times> world" where
  "getFromPeer g w peer key =
     (case peer_Get peer (name g) key of
        (bytes, err) \<Rightarrow>
          if err \<noteq> None then ((ByteView None, err), w)
          else (case cloneBytes (memory w) bytes of
                  (mem', c) \<Rightarrow> ((ByteView c, None), w\<lparr>memory := mem'\<rparr>)))"

definition getLocally ::
  "'c cache_ops \<Rightarrow> 'c Group \<Rightarrow> world \<Rightarrow> string
   \<Rightarrow> (ByteView \<times> error option) \<times> 'c Group \<times> world" where
  "getLocally ops g w key =
     (case cache_get ops (mainCache g) key of
        ((v, ok), c1) \<Rightarrow>
          if ok then ((v, None), g\<lparr>mainCache := c1\<rparr>, w)
          else (case getter g key of
                  (bytes, f, expirationTime) \<Rightarrow>
                    (let w1 = w\<lparr>loads := loads w @ [key]\<rparr>
                     in if \<not> f then ((ByteView None, Some NotFound), g\<lparr>mainCache := c1\<rparr>, w1)
                        else (case cloneBytes (memory w1) bytes of
                                (mem', c) \<Rightarrow>
                                  (let bw = ByteView c; w2 = w1\<lparr>memory := mem'\<rparr>
                                   in if \<not> IsZero expirationTime
                                      then ((bw, None),
                                            g\<lparr>mainCache :=
                                                cache_addWithExpiration ops c1 key bw expirationTime\<rparr>,
                                            w2)
                                      else ((bw, None),
                                            g\<lparr>mainCache := cache_add ops c1 key bw\<rparr>, w2))))))"

definition load ::
  "'c cache_ops \<Rightarrow> 'c Group \<Rightarrow> world \<Rightarrow> string
   \<Rightarrow> (ByteView \<times> error option) \<times> 'c Group \<times> world" where
  "load ops g w key =
     (case Do key (\<lambda>_.
              case peers g of
                Some PickPeer \<Rightarrow>
                  (case PickPeer key of
                     (peer, ok, isSelf) \<Rightarrow>
                       if ok
                       then (if isSelf
                             then (case cache_get ops (mainCache g) key of
                                     ((v, hit), c1) \<Rightarrow>
                                       if hit then ((v, None), g\<lparr>mainCache := c1\<rparr>, w)
                                       else getLocally ops (g\<lparr>mainCache := c1\<rparr>) w key)
                             else (case getFromPeer g w peer key of
                                     ((val, err), w1) \<Rightarrow>
                                       if err = None then ((val, None), g, w1)
                                       else getLocally ops g w1 key))
                       else getLocally ops g w key)
              | None \<Rightarrow> getLocally ops g w key) of
        ((v, err), g', w') \<Rightarrow>
          if err = None then ((v, None), g', w') else ((ByteView None, err), g', w'))"

definition Group_Get ::
  "'c cache_ops \<Rightarrow> 'c Group \<Rightarrow> world \<Rightarrow> string
   \<Rightarrow> (ByteView \<times> error option) \<times> 'c Group \<times> world" where
  "Group_Get ops g w key =
     (if key = [] then ((ByteView None, Some InvalidKey), g, w) else load ops g w key)"

subsection \<open>Delete\<close>

definition deleteFromPeer :: "'c Group \<Rightarrow> PeerGetter \<Rightarrow> string \<Rightarrow> bool \<times> error option" where
  "deleteFromPeer g peer key =
     (case peer_Delete peer (name g) key of
        (success, err) \<Rightarrow> if err \<noteq> None then (False, err) else (success, None))"

definition Group_Delete ::
  "'c cache_ops \<Rightarrow> 'c Group \<Rightarrow> string \<Rightarrow> (bool \<times> error option) \<times> 'c Group" where
  "Group_Delete ops g key =
     (if key = [] then ((True, Some InvalidKey), g)
      else (case peers g of
              None \<Rightarrow>
                (case cache_delete ops (mainCache g) key of
                   (removed, c1) \<Rightarrow> ((removed, None), g\<lparr>mainCache := c1\<rparr>))
            | Some PickPeer \<Rightarrow>
                (case PickPeer key of
                   (peer, ok, isSelf) \<Rightarrow>
                     if \<not> ok then ((False, None), g)
                     else if isSelf
                     then (case cache_delete ops (mainCache g) key of
                             (removed, c1) \<Rightarrow> ((removed, None), g\<lparr>mainCache := c1\<rparr>))
                     else (deleteFromPeer g peer key, g))))"

subsection \<open>The life of a group instance\<close>

text \<open>
  The calls a program can make on a group, and the group after a call. A call of
  \<^verbatim>\<open>RegisterPeers\<close> that panics does so before its assignment, so a caller that
  recovers holds the group as it was.
\<close>

datatype Group_call =
  Call_RegisterPeers "PeerPicker option"
| Call_Get world string
| Call_Delete string

fun after_call :: "'c cache_ops \<Rightarrow> 'c Group \<Rightarrow> Group_call \<Rightarrow> 'c Group" where
  "after_call ops g (Call_RegisterPeers picker) =
     (case RegisterPeers g picker of Inl _ \<Rightarrow> g | Inr g' \<Rightarrow> g')"
| "after_call ops g (Call_Get w key) = fst (snd (Group_Get ops g w key))"
| "after_call ops g (Call_Delete key) = snd (Group_Delete ops g key)"

subsection \<open>Instances for the examples\<close>

text \<open>A ring of two members with two replicas each, built with the operations above.\<close>

definition demo_ring :: Map_ring where
  "demo_ring = Add (New byte_sum [Replicas 2]) [''a'', ''c'']"

text \<open>
  A store to run the group on: a table of entries with their expiration, the newest
  first. It has no clock, so nothing expires, and no capacity, so nothing is evicted.
\<close>

type_synonym table = "(string \<times> ByteView \<times> time option) list"

definition table_ops :: "table cache_ops" where
  "table_ops =
     \<lparr>cache_new = (\<lambda>_. []),
      cache_get = (\<lambda>c k. (case map_of c k of
                               None \<Rightarrow> (ByteView None, False)
                             | Some (v, _) \<Rightarrow> (v, True), c)),
      cache_add = (\<lambda>c k v. (k, v, None) # filter (\<lambda>e. fst e \<noteq> k) c),
      cache_addWithExpiration = (\<lambda>c k v t. (k, v, Some t) # filter (\<lambda>e. fst e \<noteq> k) c),
      cache_delete = (\<lambda>c k. (map_of c k \<noteq> None, filter (\<lambda>e. fst e \<noteq> k) c))\<rparr>"

text \<open>
  A loader that knows two keys, both with the bytes of buffer 0: \<^verbatim>\<open>foo\<close> without
  expiration and \<^verbatim>\<open>tmp\<close> expiring at instant 99. A peer that is down: every call fails,
  and its delete claims success all the same. Three pickers: one that names the peer as
  owner, one that names this process, one that knows no peers.
\<close>

definition demo_getter :: Getter where
  "demo_getter key =
     (if key = ''foo'' then (Some 0, True, 0)
      else if key = ''tmp'' then (Some 0, True, 99)
      else (None, False, 0))"

definition down_peer :: PeerGetter where
  "down_peer =
     \<lparr>peer_Get = (\<lambda>group key. (None, Some (Errorf ''peer down''))),
      peer_Delete = (\<lambda>group key. (True, Some (Errorf ''peer down'')))\<rparr>"

definition remote_picker :: PeerPicker where
  "remote_picker key = (down_peer, True, False)"

definition self_picker :: PeerPicker where
  "self_picker key = (down_peer, True, True)"

definition no_peers_picker :: PeerPicker where
  "no_peers_picker key = (down_peer, False, False)"

definition demo_group :: "table Group" where
  "demo_group = \<lparr>name = ''scores'', getter = demo_getter, mainCache = [], peers = None\<rparr>"

definition demo_world :: world where
  "demo_world = \<lparr>memory = [[98, 97, 114]], loads = []\<rparr>"

section \<open>Properties of the ring\<close>

text \<open>
  The recursive equations of the loops are unfolded by hand, one step at a time.
\<close>

declare Search_loop.simps [simp del]
declare Add_replicas.simps [simp del]
declare Remove_loop.simps [simp del]
declare nat_digits.simps [simp del]

subsection \<open>The binary search on a sorted ring\<close>

text \<open>
  Over a predicate that stays true once it is true, the search returns the boundary:
  false below the result, true from it on.
\<close>

lemma Search_loop_spec:
  "(\<And>a b. a \<le> b \<Longrightarrow> b < n \<Longrightarrow> f a \<Longrightarrow> f b) \<Longrightarrow> i \<le> j \<Longrightarrow> j \<le> n \<Longrightarrow>
   (\<forall>k<i. \<not> f k) \<Longrightarrow> (\<forall>k. j \<le> k \<and> k < n \<longrightarrow> f k) \<Longrightarrow>
     Search_loop f i j \<le> n \<and> (\<forall>k < Search_loop f i j. \<not> f k) \<and>
     (\<forall>k. Search_loop f i j \<le> k \<and> k < n \<longrightarrow> f k)"
proof (induction f i j rule: Search_loop.induct)
  case (1 f i j)
  note mono = 1(3)
  show ?case
  proof (cases "i < j")
    case False
    then have eq: "Search_loop f i j = i"
      by (subst Search_loop.simps) simp
    from False 1(4) have "i = j" by simp
    with 1(5-) show ?thesis unfolding eq by simp
  next
    case True
    let ?h = "(i + j) div 2"
    have h: "i \<le> ?h" "?h < j" using True by auto
    show ?thesis
    proof (cases "f ?h")
      case False
      have below: "\<forall>k<?h + 1. \<not> f k"
      proof (intro allI impI)
        fix k assume "k < ?h + 1"
        then have "k \<le> ?h" by simp
        moreover have "?h < n" using h(2) 1(5) by linarith
        ultimately show "\<not> f k" using False mono[of k ?h] by blast
      qed
      have eq: "Search_loop f i j = Search_loop f (?h + 1) j"
        using True False by (subst Search_loop.simps) (simp add: Let_def)
      from 1(1)[OF True refl False mono _ 1(5) below 1(7)] h
      show ?thesis unfolding eq by simp
    next
      case fh: True
      have later: "\<forall>k. ?h \<le> k \<and> k < n \<longrightarrow> f k"
        using fh mono by blast
      have eq: "Search_loop f i j = Search_loop f i ?h"
        using True fh by (subst Search_loop.simps) (simp add: Let_def)
      have "?h \<le> n" using h(2) 1(5) by linarith
      from 1(2)[OF True refl _ mono h(1) this 1(6) later] fh
      show ?thesis unfolding eq by simp
    qed
  qed
qed

lemma SearchInts_sorted:
  assumes "sorted a"
  shows "SearchInts a x \<le> length a \<and> (\<forall>k < SearchInts a x. a ! k < x) \<and>
         (\<forall>k. SearchInts a x \<le> k \<and> k < length a \<longrightarrow> x \<le> a ! k)"
proof -
  have mono: "\<And>i j. i \<le> j \<Longrightarrow> j < length a \<Longrightarrow> x \<le> a ! i \<Longrightarrow> x \<le> a ! j"
    using assms by (meson order_trans sorted_nth_mono)
  from Search_loop_spec[of "length a" "\<lambda>i. x \<le> a ! i" 0 "length a", OF mono]
  show ?thesis by (simp add: SearchInts_def Search_def not_le)
qed

lemma SearchInts_takeWhile:
  assumes "sorted a"
  shows "SearchInts a x = length (takeWhile (\<lambda>k. k < x) a)"
proof -
  let ?r = "SearchInts a x"
  from SearchInts_sorted[OF assms, of x]
  have r: "?r \<le> length a" "\<And>k. k < ?r \<Longrightarrow> a ! k < x" "?r < length a \<Longrightarrow> \<not> a ! ?r < x"
    by (auto simp: not_less)
  have "takeWhile (\<lambda>k. k < x) a = take ?r a"
    by (rule takeWhile_eq_take_P_nth) (use r in auto)
  with r(1) show ?thesis by simp
qed

lemma remove_at_SearchInts:
  assumes "sorted a" "x \<in> set a"
  shows "SearchInts a x < length a \<and> take (SearchInts a x) a @ drop (SearchInts a x + 1) a = remove1 x a"
proof -
  let ?P = "\<lambda>k. k < x"
  let ?r = "SearchInts a x"
  have r: "?r = length (takeWhile ?P a)" by (rule SearchInts_takeWhile[OF assms(1)])
  have tk: "take ?r a = takeWhile ?P a" by (subst r) (rule takeWhile_eq_take[symmetric])
  have dr: "drop ?r a = dropWhile ?P a" by (subst r) (rule dropWhile_eq_drop[symmetric])
  have "dropWhile ?P a \<noteq> []" using assms(2) by (auto simp: dropWhile_eq_Nil_conv)
  then obtain y ys where ys: "dropWhile ?P a = y # ys" by (cases "dropWhile ?P a") auto
  have a: "a = takeWhile ?P a @ y # ys" using ys by (metis takeWhile_dropWhile_id)
  have "\<not> y < x" using ys by (metis hd_dropWhile list.sel(1) list.distinct(1))
  moreover have "y \<le> x"
  proof -
    have "x \<in> set (y # ys)" using assms(2) a
      by (metis (mono_tags, lifting) Un_iff less_irrefl set_append set_takeWhileD)
    moreover have "sorted (y # ys)" using assms(1) a by (metis sorted_append)
    ultimately show ?thesis by auto
  qed
  ultimately have yx: "y = x" by simp
  have notin: "x \<notin> set (takeWhile ?P a)" by (auto dest: set_takeWhileD)
  have lt: "?r < length a" using a r by (metis length_append length_Cons less_add_Suc1 add_Suc_right)
  have "drop (?r + 1) a = ys" using dr ys by (metis Suc_eq_plus1 drop_Suc list.sel(3) tl_drop)
  then have "take ?r a @ drop (?r + 1) a = takeWhile ?P a @ ys" using tk by simp
  also have "\<dots> = remove1 x (takeWhile ?P a @ y # ys)" using notin yx by (simp add: remove1_append)
  also have "\<dots> = remove1 x a" using a by simp
  finally show ?thesis using lt by simp
qed

lemma Search_keys_sorted:
  assumes "sorted (a :: int list)"
  shows "Search (length a) (\<lambda>i. a ! i \<ge> x) = length (takeWhile (\<lambda>k. k < x) a)"
  using SearchInts_takeWhile[OF assms, of x] by (simp add: SearchInts_def)

lemma find_dropWhile: "find P xs = (case dropWhile (\<lambda>x. \<not> P x) xs of [] \<Rightarrow> None | y # _ \<Rightarrow> Some y)"
  by (induction xs) auto

subsection \<open>The loops of Add and Remove in closed form\<close>

lemma replica_hash_update [simp]:
  "replica_hash (m\<lparr>keys := ks\<rparr>) i key = replica_hash m i key"
  "replica_hash (m\<lparr>hashMap := mp\<rparr>) i key = replica_hash m i key"
  by (simp_all add: replica_hash_def)

lemma replica_hashes_update [simp]:
  "replica_hashes (m\<lparr>keys := ks\<rparr>) key i = replica_hashes m key i"
  "replica_hashes (m\<lparr>hashMap := mp\<rparr>) key i = replica_hashes m key i"
  by (simp_all add: replica_hashes_def)

lemma replica_hashes_step:
  "i < replicas m \<Longrightarrow> replica_hashes m key i = replica_hash m i key # replica_hashes m key (i + 1)"
  by (simp add: replica_hashes_def upto_rec1)

lemma replica_hashes_done:
  "\<not> i < replicas m \<Longrightarrow> replica_hashes m key i = []"
  by (simp add: replica_hashes_def)

lemma Add_replicas_eq:
  "Add_replicas m key i =
     m\<lparr>keys := keys m @ replica_hashes m key i,
       hashMap := (\<lambda>k. if k \<in> set (replica_hashes m key i) then Some key else hashMap m k)\<rparr>"
proof (induction m key i rule: Add_replicas.induct)
  case (1 m key i)
  show ?case
  proof (cases "i < replicas m")
    case False
    then show ?thesis
      by (subst Add_replicas.simps) (simp add: replica_hashes_done)
  next
    case True
    show ?thesis
      by (subst Add_replicas.simps, simp only: True if_True Let_def, subst 1[OF True refl])
         (auto simp: replica_hashes_step[OF True] fun_eq_iff)
  qed
qed

lemma Remove_loop_eq:
  "sorted (keys m) \<Longrightarrow> mset (replica_hashes m key i) \<subseteq># mset (keys m) \<Longrightarrow>
   Remove_loop m key i =
     Inr (m\<lparr>keys := fold remove1 (replica_hashes m key i) (keys m),
           hashMap := (\<lambda>k. if k \<in> set (replica_hashes m key i) then None else hashMap m k)\<rparr>)"
proof (induction m key i rule: Remove_loop.induct)
  case (1 m key i)
  show ?case
  proof (cases "i < replicas m")
    case False
    then show ?thesis
      by (subst Remove_loop.simps) (simp add: replica_hashes_done)
  next
    case True
    let ?h = "replica_hash m i key"
    let ?idx = "SearchInts (keys m) ?h"
    have H: "replica_hashes m key i = ?h # replica_hashes m key (i + 1)"
      by (rule replica_hashes_step[OF True])
    have hin: "?h \<in> set (keys m)"
      using 1(3) unfolding H by (metis mset_subset_eq_insertD set_mset_mset mset.simps(2))
    from remove_at_SearchInts[OF 1(2) hin]
    have idx: "?idx < length (keys m)" and rm: "take ?idx (keys m) @ drop (?idx + 1) (keys m) = remove1 ?h (keys m)"
      by auto
    let ?m' = "m\<lparr>keys := take ?idx (keys m) @ drop (?idx + 1) (keys m), hashMap := (hashMap m)(?h := None)\<rparr>"
    have s': "sorted (keys ?m')" using 1(2) rm by (simp add: sorted_remove1)
    have k': "keys ?m' = remove1 ?h (keys m)" using rm by simp
    have "mset (replica_hashes m key (i + 1)) \<subseteq># mset (keys m) - {#?h#}"
      using 1(3) unfolding H by (simp add: insert_subset_eq_iff)
    then have sub': "mset (replica_hashes ?m' key (i + 1)) \<subseteq># mset (keys ?m')"
      unfolding k' by simp
    have nb: "\<not> length (keys m) < ?idx + 1" using idx by simp
    have "Remove_loop m key i = Remove_loop ?m' key (i + 1)"
      by (subst Remove_loop.simps) (simp only: True if_True Let_def nb if_False)
    also note 1(1)[OF True refl refl nb s' sub']
    finally show ?thesis
      using rm by (simp add: H fun_eq_iff cong: if_cong)
  qed
qed

lemma mset_fold_remove1: "mset (fold remove1 hs xs) = mset xs - mset hs"
  by (induction hs arbitrary: xs) auto

lemma sorted_fold_remove1: "sorted xs \<Longrightarrow> sorted (fold remove1 hs xs)"
  by (induction hs arbitrary: xs) (auto simp: sorted_remove1)

lemma fold_remove1_sort_append:
  assumes "sorted (xs :: int list)"
  shows "fold remove1 hs (sort (xs @ hs)) = xs"
proof -
  let ?r = "fold remove1 hs (sort (xs @ hs))"
  have "mset ?r = mset xs" by (simp add: mset_fold_remove1)
  moreover have "sorted ?r" by (simp add: sorted_fold_remove1)
  ultimately have "sort xs = ?r" by (rule properties_for_sort)
  with assms show ?thesis by (simp add: sorted_sort_id)
qed

lemma Add_single:
  "Add m [key] =
     m\<lparr>keys := sort (keys m @ replica_hashes m key 0),
       hashMap := (\<lambda>k. if k \<in> set (replica_hashes m key 0) then Some key else hashMap m k)\<rparr>"
  by (simp add: Add_def Add_replicas_eq)

lemma sorted_keys_Add: "sorted (keys (Add m members))"
  by (simp add: Add_def Let_def)

lemma New_fresh: "keys (New dh opts) = [] \<and> hashMap (New dh opts) = (\<lambda>_. None)"
proof -
  have "keys (fold apply_opt opts m) = keys m \<and> hashMap (fold apply_opt opts m) = hashMap m" for m
  proof (induction opts arbitrary: m)
    case Nil
    show ?case by simp
  next
    case (Cons opt opts)
    then show ?case by (cases opt) simp_all
  qed
  then show ?thesis by (simp add: New_def)
qed

text \<open>
  Every ring a program can hold has its keys sorted: \<^verbatim>\<open>New\<close> starts with none,
  \<^verbatim>\<open>Add\<close> sorts, and \<^verbatim>\<open>Remove\<close> cuts entries out of a sorted slice.
\<close>

lemma sorted_remove_at: "sorted xs \<Longrightarrow> sorted (take n xs @ drop (Suc n) xs)"
proof (induction xs arbitrary: n)
  case Nil
  then show ?case by simp
next
  case (Cons x xs)
  then show ?case
    by (cases n) (auto dest: in_set_takeD in_set_dropD)
qed

lemma sorted_keys_Remove_loop:
  "sorted (keys m) \<Longrightarrow> Remove_loop m key i = Inr m' \<Longrightarrow> sorted (keys m')"
proof (induction m key i rule: Remove_loop.induct)
  case (1 m key i)
  show ?case
  proof (cases "i < replicas m")
    case False
    with 1(2,3) show ?thesis by (subst (asm) Remove_loop.simps) simp
  next
    case True
    let ?h = "replica_hash m i key"
    let ?idx = "SearchInts (keys m) ?h"
    let ?m1 = "m\<lparr>keys := take ?idx (keys m) @ drop (?idx + 1) (keys m),
                  hashMap := (hashMap m)(?h := None)\<rparr>"
    from 1(3) True have nb: "\<not> length (keys m) < ?idx + 1"
      by (subst (asm) Remove_loop.simps) (auto simp: Let_def split: if_splits)
    from 1(3) True nb have r: "Remove_loop ?m1 key (i + 1) = Inr m'"
      by (subst (asm) Remove_loop.simps) (simp add: Let_def)
    have s: "sorted (keys ?m1)" using 1(2) by (simp add: sorted_remove_at)
    from 1(1)[OF True refl refl nb s r] show ?thesis .
  qed
qed

lemma ring_reachable_sorted: "ring_reachable m \<Longrightarrow> sorted (keys m)"
proof (induction rule: ring_reachable.induct)
  case (reach_New defaultHash opts)
  show ?case by (simp add: New_fresh)
next
  case (reach_Add m members)
  show ?case by (rule sorted_keys_Add)
next
  case (reach_Remove m key m')
  then show ?case by (auto simp: Remove_def dest: sorted_keys_Remove_loop)
qed

subsection \<open>The example ring\<close>

lemmas ring_eval = Add_def New_def Add_replicas.simps replica_hash_def Itoa_def
  nat_digits.simps digit_char_def byte_sum_def

lemma demo_ring_keys: "keys demo_ring = [145, 146, 147, 148]"
  by (simp add: demo_ring_def ring_eval)

lemma demo_ring_hashMap:
  "hashMap demo_ring = [145 \<mapsto> ''a'', 146 \<mapsto> ''a'', 147 \<mapsto> ''c'', 148 \<mapsto> ''c'']"
  by (simp add: demo_ring_def ring_eval)

lemma demo_ring_hash: "hash demo_ring = byte_sum" "replicas demo_ring = 2"
  by (simp_all add: demo_ring_def ring_eval)

subsection \<open>Lookup\<close>

text \<open>
  Claim C4. On every ring whose keys are sorted, which every ring a program can hold is
  (\<open>ring_reachable_sorted\<close>), and for every key, \<^verbatim>\<open>Get\<close> returns the empty string when the ring has no entries; otherwise it returns
  the member of the first virtual-node hash at or after the key's hash, and when there
  is none (the key's hash is greater than every entry) the member of the smallest entry.
  The binary search and the index modulo the length compute what a scan from the left
  for the first entry, and the minimum of the ring, describe.
\<close>

theorem Get_spec:
  assumes "sorted (keys m)"
  shows "Get m key =
     (if keys m = [] then []
      else case find (\<lambda>k. uint (hash m key) \<le> k) (keys m) of
             Some k \<Rightarrow> map_index (hashMap m) k
           | None \<Rightarrow> map_index (hashMap m) (Min (set (keys m))))"
proof (cases "keys m = []")
  case True
  then show ?thesis by (simp add: Get_def)
next
  case False
  let ?h = "uint (hash m key)"
  let ?P = "\<lambda>k. k < ?h"
  let ?a = "keys m"
  let ?r = "length (takeWhile ?P ?a)"
  have G: "Get m key = map_index (hashMap m) (?a ! (?r mod length ?a))"
    using False Search_keys_sorted[OF assms, of ?h] by (simp add: Get_def Let_def)
  have dw: "dropWhile (\<lambda>k. \<not> ?h \<le> k) ?a = drop ?r ?a"
    by (simp add: not_le dropWhile_eq_drop)
  show ?thesis
  proof (cases "?r < length ?a")
    case True
    then have "drop ?r ?a = ?a ! ?r # drop (Suc ?r) ?a" by (simp add: Cons_nth_drop_Suc)
    then have "find (\<lambda>k. ?h \<le> k) ?a = Some (?a ! ?r)"
      unfolding find_dropWhile dw by simp
    with G True False show ?thesis by simp
  next
    case nlt: False
    then have r: "?r = length ?a" using length_takeWhile_le[of ?P ?a] by linarith
    then have "find (\<lambda>k. ?h \<le> k) ?a = None"
      unfolding find_dropWhile dw by simp
    moreover have "?a ! 0 = Min (set ?a)"
    proof -
      obtain y ys where a: "?a = y # ys" using False by (cases ?a) auto
      with assms have "\<forall>z\<in>set ys. y \<le> z" by simp
      then have "Min (set (y # ys)) = y" by (intro Min_eqI) auto
      with a show ?thesis by simp
    qed
    ultimately show ?thesis using G False r by simp
  qed
qed

theorem Get_spec_witness:
  "sorted (keys demo_ring) \<and> Get demo_ring ''1b'' = ''c'' \<and> Get demo_ring ''zz'' = ''a''"
proof -
  have s: "sorted (keys demo_ring)" by (simp add: demo_ring_keys)
  show ?thesis
    using s Get_spec[OF s, of "''1b''"] Get_spec[OF s, of "''zz''"]
    by (simp add: demo_ring_keys demo_ring_hashMap demo_ring_hash byte_sum_def map_index_def)
qed

subsection \<open>Removing a member just added\<close>

text \<open>
  Claim C5. On a ring with sorted keys, where none of the virtual-node hashes of a
  member is a key of the table yet, \<^verbatim>\<open>Remove\<close> of the member right after \<^verbatim>\<open>Add\<close> of
  it does not panic and gives back the ring as it was: the same sorted keys and the
  same table. \<^verbatim>\<open>Remove\<close> recomputes, replica by replica, the hashes \<^verbatim>\<open>Add\<close> inserted
  and finds each of them in the ring. (The keys are restored even when hashes coincide;
  the table needs the member's hashes to be new to it.)
\<close>

theorem Remove_after_Add:
  assumes "sorted (keys m)"
    and "set (replica_hashes m key 0) \<inter> dom (hashMap m) = {}"
  shows "Remove (Add m [key]) key = Inr m"
proof -
  let ?H = "replica_hashes m key 0"
  let ?m1 = "Add m [key]"
  have k1: "keys ?m1 = sort (keys m @ ?H)" by (simp add: Add_single)
  have h1: "hashMap ?m1 = (\<lambda>k. if k \<in> set ?H then Some key else hashMap m k)"
    by (simp add: Add_single)
  have H1: "replica_hashes ?m1 key 0 = ?H" by (simp add: Add_single)
  have s1: "sorted (keys ?m1)" by (simp add: k1)
  have sub: "mset (replica_hashes ?m1 key 0) \<subseteq># mset (keys ?m1)"
    by (simp add: H1 k1)
  have fresh: "\<And>k. k \<in> set ?H \<Longrightarrow> hashMap m k = None"
    using assms(2) by auto
  have "Remove ?m1 key =
      Inr (?m1\<lparr>keys := fold remove1 ?H (sort (keys m @ ?H)),
             hashMap := (\<lambda>k. if k \<in> set ?H then None else hashMap ?m1 k)\<rparr>)"
    unfolding Remove_def Remove_loop_eq[OF s1 sub] H1 k1 ..
  also have "fold remove1 ?H (sort (keys m @ ?H)) = keys m"
    by (rule fold_remove1_sort_append[OF assms(1)])
  also have "(\<lambda>k. if k \<in> set ?H then None else hashMap ?m1 k) = hashMap m"
    using fresh by (auto simp: h1 fun_eq_iff)
  also have "?m1\<lparr>keys := keys m, hashMap := hashMap m\<rparr> = m"
    by (simp add: Add_single)
  finally show ?thesis .
qed

theorem Remove_after_Add_witness:
  "sorted (keys demo_ring) \<and>
   set (replica_hashes demo_ring ''e'' 0) \<inter> dom (hashMap demo_ring) = {} \<and>
   Remove (Add demo_ring [''e'']) ''e'' = Inr demo_ring"
proof -
  have s: "sorted (keys demo_ring)" by (simp add: demo_ring_keys)
  have H: "replica_hashes demo_ring ''e'' 0 = [149, 150]"
    by (simp add: replica_hashes_def demo_ring_hash replica_hash_def upto_rec1 Itoa_def
          nat_digits.simps digit_char_def byte_sum_def)
  have d: "set (replica_hashes demo_ring ''e'' 0) \<inter> dom (hashMap demo_ring) = {}"
    by (simp add: H demo_ring_hashMap)
  show ?thesis using s d Remove_after_Add[OF s d] by simp
qed

subsection \<open>Removing a member that is not in the ring\<close>

text \<open>
  On a ring with no entries the search returns 0, the length, and the slice expression
  of \<^verbatim>\<open>Remove\<close> panics, whatever the hash function and the member.
\<close>

lemma Remove_empty_ring:
  "keys m = [] \<Longrightarrow> 0 < replicas m \<Longrightarrow> Remove m key = Inl (SliceBoundsOutOfRange 1 0)"
  by (simp add: Remove_def Remove_loop.simps SearchInts_def Search_def Search_loop.simps)

text \<open>
  Claim C1 says that \<^verbatim>\<open>Remove\<close> of a member whose computed hashes are not in the ring
  leaves the ring alone and never panics. The code does neither. On the ring
  \<^verbatim>\<open>New()\<close> has just made, \<^verbatim>\<open>Remove("b")\<close> panics with \<^verbatim>\<open>slice bounds out of range [1:0]\<close>.
  On the example ring, whose entries 145 and 146 belong to member \<^verbatim>\<open>a\<close> and 147 and 148
  to member \<^verbatim>\<open>c\<close>, \<^verbatim>\<open>Remove("A")\<close> computes the hashes 113 and 114, finds neither, and
  removes the entries 145 and 146 in their place: member \<^verbatim>\<open>a\<close>, which nobody removed,
  has no ring entry left.
\<close>

theorem Remove_never_added:
  "Remove (New byte_sum []) ''b'' = Inl (SliceBoundsOutOfRange 1 0) \<and>
   replica_hashes demo_ring ''A'' 0 = [113, 114] \<and>
   keys demo_ring = [145, 146, 147, 148] \<and>
   Remove demo_ring ''A'' = Inr (demo_ring\<lparr>keys := [147, 148]\<rparr>)"
proof -
  have H: "replica_hashes demo_ring ''A'' 0 = [113, 114]"
    by (simp add: replica_hashes_def demo_ring_hash replica_hash_def upto_rec1 Itoa_def
          nat_digits.simps digit_char_def byte_sum_def)
  have 1: "Remove (New byte_sum []) ''b'' = Inl (SliceBoundsOutOfRange 1 0)"
    by (simp add: Remove_def Remove_loop.simps New_def defaultReplicas_def SearchInts_def Search_def Search_loop.simps)
  have s0: "SearchInts [145, 146, 147, 148] 113 = 0" "SearchInts [146, 147, 148] 114 = 0"
    by (simp_all add: SearchInts_def Search_def Search_loop.simps)
  have 2: "Remove demo_ring ''A'' = Inr (demo_ring\<lparr>keys := [147, 148]\<rparr>)"
    apply (simp add: Remove_def)
    apply (subst Remove_loop.simps)
    apply (simp add: demo_ring_hash demo_ring_keys s0 replica_hash_def Itoa_def nat_digits.simps digit_char_def byte_sum_def)
    apply (subst Remove_loop.simps)
    apply (simp add: demo_ring_hash demo_ring_keys s0 replica_hash_def Itoa_def nat_digits.simps digit_char_def byte_sum_def)
    apply (subst Remove_loop.simps)
    apply (simp add: demo_ring_hash demo_ring_keys s0 demo_ring_hashMap)
    done
  show ?thesis using 1 2 H demo_ring_keys by simp
qed

subsection \<open>A ring built by adding members\<close>

text \<open>
  \<^verbatim>\<open>Add\<close> in closed form: the keys grow by the hashes of the new virtual nodes and are
  sorted; the table is overridden by the new virtual nodes, the last one inserted
  winning. A sequence of calls adds up.
\<close>

lemma replica_hashes_cong:
  "hash m' = hash m \<Longrightarrow> replicas m' = replicas m \<Longrightarrow> replica_hashes m' key i = replica_hashes m key i"
  by (simp add: replica_hashes_def replica_hash_def)

lemma vnodes_cong:
  "hash m' = hash m \<Longrightarrow> replicas m' = replicas m \<Longrightarrow> vnodes m' ms = vnodes m ms"
  by (simp add: vnodes_def replica_hashes_cong[of m' m])

lemma map_fst_vnodes: "map fst (vnodes m ms) = ring_hashes m ms"
  by (simp add: vnodes_def ring_hashes_def map_concat comp_def)

lemma vnodes_Cons:
  "vnodes m (mem # ms) = map (\<lambda>h. (h, mem)) (replica_hashes m mem 0) @ vnodes m ms"
  by (simp add: vnodes_def)

lemma map_of_const: "map_of (map (\<lambda>h. (h, v)) hs) k = (if k \<in> set hs then Some v else None)"
  by (induction hs) auto

lemma Add_keys_eq:
  "Add_keys m ms =
     m\<lparr>keys := keys m @ map fst (vnodes m ms),
       hashMap := hashMap m ++ map_of (rev (vnodes m ms))\<rparr>"
proof (induction ms arbitrary: m)
  case Nil
  then show ?case by (simp add: vnodes_def)
next
  case (Cons mem ms)
  let ?H = "replica_hashes m mem 0"
  let ?m1 = "Add_replicas m mem 0"
  have m1: "?m1 = m\<lparr>keys := keys m @ ?H,
       hashMap := (\<lambda>k. if k \<in> set ?H then Some mem else hashMap m k)\<rparr>"
    by (rule Add_replicas_eq)
  have v: "vnodes ?m1 ms = vnodes m ms"
    by (rule vnodes_cong) (simp_all add: m1)
  have hm: "(\<lambda>k. if k \<in> set ?H then Some mem else hashMap m k) ++ map_of (rev (vnodes m ms))
      = hashMap m ++ map_of (rev (vnodes m (mem # ms)))"
    by (auto simp: fun_eq_iff map_add_def vnodes_Cons map_of_append rev_map map_of_const
        split: option.splits)
  have "Add_keys m (mem # ms) = Add_keys ?m1 ms" by simp
  also have "\<dots> = ?m1\<lparr>keys := keys ?m1 @ map fst (vnodes m ms),
       hashMap := hashMap ?m1 ++ map_of (rev (vnodes m ms))\<rparr>"
    unfolding Cons.IH[of ?m1] v ..
  also have "\<dots> = m\<lparr>keys := keys m @ map fst (vnodes m (mem # ms)),
       hashMap := hashMap m ++ map_of (rev (vnodes m (mem # ms)))\<rparr>"
    unfolding hm[symmetric] by (simp add: m1 vnodes_Cons comp_def)
  finally show ?case .
qed

lemma Add_eq:
  "Add m ms =
     m\<lparr>keys := sort (keys m @ map fst (vnodes m ms)),
       hashMap := hashMap m ++ map_of (rev (vnodes m ms))\<rparr>"
  by (simp add: Add_def Add_keys_eq)

lemma vnodes_append: "vnodes m (xs @ ys) = vnodes m xs @ vnodes m ys"
  by (simp add: vnodes_def)

lemma foldl_Add_eq:
  "hash (foldl Add m calls) = hash m \<and> replicas (foldl Add m calls) = replicas m \<and>
   mset (keys (foldl Add m calls)) = mset (keys m) + mset (map fst (vnodes m (concat calls))) \<and>
   hashMap (foldl Add m calls) = hashMap m ++ map_of (rev (vnodes m (concat calls)))"
proof (induction calls arbitrary: m)
  case Nil
  then show ?case by (simp add: vnodes_def)
next
  case (Cons c calls)
  let ?m1 = "Add m c"
  have hr: "hash ?m1 = hash m" "replicas ?m1 = replicas m" by (simp_all add: Add_eq)
  have v: "vnodes ?m1 (concat calls) = vnodes m (concat calls)"
    by (rule vnodes_cong[OF hr])
  from Cons.IH[of ?m1] show ?case
    unfolding v by (simp add: hr) (simp add: Add_eq vnodes_append map_of_append)
qed

lemma length_replica_hashes: "length (replica_hashes m mem 0) = nat (replicas m)"
  by (simp add: replica_hashes_def)

lemma length_vnodes: "length (vnodes m ms) = length ms * nat (replicas m)"
  by (induction ms) (simp_all add: vnodes_Cons length_replica_hashes vnodes_def)

lemma snd_vnodes: "p \<in> set (vnodes m ms) \<Longrightarrow> snd p \<in> set ms"
  by (auto simp: vnodes_def)

lemma count_vnodes:
  "distinct ms \<Longrightarrow> mem \<in> set ms \<Longrightarrow>
   length (filter (\<lambda>p. snd p = mem) (vnodes m ms)) = nat (replicas m)"
proof (induction ms)
  case Nil
  then show ?case by simp
next
  case (Cons a ms)
  show ?case
  proof (cases "a = mem")
    case True
    with Cons.prems have "mem \<notin> set ms" by simp
    then have "filter (\<lambda>p. snd p = mem) (vnodes m ms) = []"
      by (auto simp: filter_empty_conv dest: snd_vnodes)
    with True show ?thesis
      by (simp add: vnodes_Cons filter_map comp_def length_replica_hashes)
  next
    case False
    with Cons show ?thesis
      by (simp add: vnodes_Cons filter_map comp_def)
  qed
qed

lemma map_of_rev_distinct: "distinct (map fst xs) \<Longrightarrow> map_of (rev xs) = map_of xs"
  by (subst map_of_inject_set) (simp_all add: rev_map[symmetric])

lemma length_filter_mset_eq:
  "mset xs = mset ys \<Longrightarrow> length (filter P xs) = length (filter P ys)"
  by (metis mset_filter size_mset)

text \<open>
  Claim C6 says that after any sequence of \<^verbatim>\<open>Add\<close> calls that brings M distinct
  members to a new ring with R replicas and no two virtual nodes on one hash, the ring
  has M * R entries, each member owns R of them, and \<^verbatim>\<open>Get\<close> returns one of the
  members, never the empty string, once there is a member. With zero replicas the last
  part fails: \<^verbatim>\<open>Add\<close> inserts nothing for a member, the ring stays empty, and \<^verbatim>\<open>Get\<close>
  takes its empty-ring branch and returns the empty string, which is not the member that
  was added. And with one replica, a ring whose only member has the empty string for
  its ID answers every key with that member, the empty string.
\<close>

theorem Add_zero_replicas:
  "replicas (New byte_sum [Replicas 0]) = 0 \<and>
   distinct (concat [[''a'']]) \<and>
   distinct (ring_hashes (New byte_sum [Replicas 0]) (concat [[''a'']])) \<and>
   concat [[''a'']] \<noteq> [] \<and>
   keys (foldl Add (New byte_sum [Replicas 0]) [[''a'']]) = [] \<and>
   Get (foldl Add (New byte_sum [Replicas 0]) [[''a'']]) ''k'' = [] \<and>
   Get (foldl Add (New byte_sum [Replicas 0]) [[''a'']]) ''k'' \<notin> set (concat [[''a'']]) \<and>
   keys (foldl Add (New byte_sum [Replicas 1]) [[ [] ]]) = [48] \<and>
   Get (foldl Add (New byte_sum [Replicas 1]) [[ [] ]]) ''k'' = []"
  by (simp add: New_def ring_hashes_def replica_hashes_def Add_def Add_replicas.simps Get_def
        replica_hash_def Itoa_def nat_digits.simps digit_char_def byte_sum_def map_index_def
        Search_def Search_loop.simps)

text \<open>
  Claim C6, amended: the same with at least one replica, \<open>1 \<le> R\<close>, the answer of
  \<^verbatim>\<open>Get\<close> being one of the members, and not the empty string when no member has the
  empty string for its ID. The ring is the one reached from \<^verbatim>\<open>New\<close> by the calls
  \<open>calls\<close> of \<^verbatim>\<open>Add\<close>, each with its list of members; no member is removed. The
  entries of a member are the positions of the ring whose hash the table sends to it.
\<close>

theorem Add_sequence_balance:
  fixes dh :: Hash and opts :: "ConsOptions list" and calls :: "string list list" and key :: string
  defines "m0 \<equiv> New dh opts"
    and "members \<equiv> concat calls"
    and "m \<equiv> foldl Add (New dh opts) calls"
  assumes R: "1 \<le> replicas m0"
    and dm: "distinct members"
    and dh: "distinct (ring_hashes m0 members)"
  shows "int (length (keys m)) = int (length members) * replicas m0 \<and>
         (\<forall>mem \<in> set members.
            int (length (filter (\<lambda>k. hashMap m k = Some mem) (keys m))) = replicas m0) \<and>
         (members \<noteq> [] \<longrightarrow> Get m key \<in> set members) \<and>
         (members \<noteq> [] \<and> [] \<notin> set members \<longrightarrow> Get m key \<noteq> [])"
proof -
  let ?m0 = "m0"
  let ?ms = "members"
  let ?ps = "vnodes ?m0 ?ms"
  from foldl_Add_eq[of "New dh opts" calls] New_fresh[of dh opts]
  have ks: "mset (keys m) = mset (map fst ?ps)"
    and hm: "hashMap m = map_of (rev ?ps)"
    by (simp_all add: m_def m0_def members_def)
  have dps: "distinct (map fst ?ps)" using dh by (simp add: map_fst_vnodes)
  have hm': "hashMap m = map_of ?ps"
    unfolding hm using dps by (simp add: map_of_rev_distinct)
  have len: "length (keys m) = length ?ms * nat (replicas ?m0)"
    using ks by (metis length_vnodes length_map size_mset)
  have c1: "int (length (keys m)) = int (length ?ms) * replicas ?m0"
    using len R by simp
  have c2: "int (length (filter (\<lambda>k. hashMap m k = Some mem) (keys m))) = replicas ?m0"
    if mem: "mem \<in> set ?ms" for mem
  proof -
    have "length (filter (\<lambda>k. hashMap m k = Some mem) (keys m))
        = length (filter (\<lambda>k. hashMap m k = Some mem) (map fst ?ps))"
      by (rule length_filter_mset_eq[OF ks])
    also have "\<dots> = length (filter (\<lambda>p. map_of ?ps (fst p) = Some mem) ?ps)"
      by (simp add: filter_map comp_def hm')
    also have "filter (\<lambda>p. map_of ?ps (fst p) = Some mem) ?ps = filter (\<lambda>p. snd p = mem) ?ps"
    proof (rule filter_cong[OF refl])
      fix p assume "p \<in> set ?ps"
      then have "map_of ?ps (fst p) = Some (snd p)"
        using map_of_is_SomeI[OF dps, of "fst p" "snd p"] by simp
      then show "(map_of ?ps (fst p) = Some mem) = (snd p = mem)" by simp
    qed
    also have "length \<dots> = nat (replicas ?m0)"
      by (rule count_vnodes[OF dm mem])
    finally show ?thesis using R by simp
  qed
  have c3: "Get m key \<in> set ?ms" if ne: "?ms \<noteq> []"
  proof -
    have "0 < length (keys m)" using len ne R by simp
    then have kne: "length (keys m) \<noteq> 0" by simp
    define j where "j = Search (length (keys m)) (\<lambda>i. uint (hash m key) \<le> keys m ! i) mod length (keys m)"
    have j: "j < length (keys m)" unfolding j_def using kne by simp
    have G: "Get m key = map_index (hashMap m) (keys m ! j)"
      using kne by (simp add: Get_def Let_def j_def)
    have "keys m ! j \<in> set (keys m)" using j by simp
    then have "keys m ! j \<in> set (map fst ?ps)" using ks by (metis set_mset_mset)
    then obtain v where v: "map_of ?ps (keys m ! j) = Some v"
      by (metis map_of_eq_None_iff not_Some_eq set_map)
    then have "(keys m ! j, v) \<in> set ?ps" by (rule map_of_SomeD)
    then have "v \<in> set ?ms" by (auto dest: snd_vnodes)
    with G v show ?thesis by (simp add: hm' map_index_def)
  qed
  from c3 have c4: "Get m key \<noteq> []" if "?ms \<noteq> []" "[] \<notin> set ?ms"
    using that by metis
  from c1 c2 c3 c4 show ?thesis by blast
qed

theorem Add_sequence_balance_witness:
  "1 \<le> replicas (New byte_sum [Replicas 2]) \<and>
   distinct (concat [[''a''], [''c'']]) \<and>
   distinct (ring_hashes (New byte_sum [Replicas 2]) (concat [[''a''], [''c'']])) \<and>
   int (length (keys (foldl Add (New byte_sum [Replicas 2]) [[''a''], [''c'']]))) = 2 * 2 \<and>
   int (length (filter (\<lambda>k. hashMap (foldl Add (New byte_sum [Replicas 2]) [[''a''], [''c'']]) k = Some ''c'')
                  (keys (foldl Add (New byte_sum [Replicas 2]) [[''a''], [''c'']])))) = 2 \<and>
   Get (foldl Add (New byte_sum [Replicas 2]) [[''a''], [''c'']]) ''k'' \<in> set [''a'', ''c''] \<and>
   Get (foldl Add (New byte_sum [Replicas 2]) [[''a''], [''c'']]) ''k'' \<noteq> []"
proof -
  have R: "1 \<le> replicas (New byte_sum [Replicas 2])" by (simp add: New_def)
  have dm: "distinct (concat [[''a''], [''c'']])" by simp
  have dh: "distinct (ring_hashes (New byte_sum [Replicas 2]) (concat [[''a''], [''c'']]))"
    by (simp add: ring_hashes_def replica_hashes_def New_def replica_hash_def upto_rec1 Itoa_def
          nat_digits.simps digit_char_def byte_sum_def)
  show ?thesis
    using R dm dh Add_sequence_balance[OF R dm dh, of "''k''"] by (simp add: New_def)
qed

section \<open>Properties of the cache group\<close>

subsection \<open>The paths of Get\<close>

text \<open>
  The local path returns the zero \<^verbatim>\<open>ByteView\<close> with every error, so the
  \<^verbatim>\<open>if err == nil\<close> after the deduplicated call changes nothing; \<^verbatim>\<open>load\<close> is then one
  of six paths.
\<close>

lemma getLocally_error:
  "snd (fst (getLocally ops g w key)) = Some e \<longleftrightarrow>
     \<not> snd (fst (cache_get ops (mainCache g) key)) \<and> \<not> fst (snd (getter g key)) \<and> e = NotFound"
  by (auto simp: getLocally_def cloneBytes_def Let_def split: prod.splits)

lemma getLocally_loads:
  "loads (snd (snd (getLocally ops g w key))) =
     (if snd (fst (cache_get ops (mainCache g) key)) then loads w else loads w @ [key])"
  by (auto simp: getLocally_def cloneBytes_def Let_def split: prod.splits)

lemma getLocally_error_loads:
  "snd (fst (getLocally ops g w key)) = Some e \<longleftrightarrow>
     loads (snd (snd (getLocally ops g w key))) = loads w @ [key] \<and> \<not> fst (snd (getter g key)) \<and> e = NotFound"
  by (auto simp: getLocally_error getLocally_loads)

lemma getLocally_zero_on_error:
  "getLocally ops g w key = ((v, Some e), g', w') \<Longrightarrow> v = ByteView None"
  by (auto simp: getLocally_def cloneBytes_def Let_def split: prod.splits if_splits)

lemma getLocally_norm:
  "(case getLocally ops g w key of
      ((v, err), rest) \<Rightarrow>
        if err = None then ((v, None), rest) else ((ByteView None, err), rest))
   = getLocally ops g w key"
proof -
  obtain v err g' w' where r: "getLocally ops g w key = ((v, err), g', w')"
    by (metis prod.collapse)
  show ?thesis
  proof (cases err)
    case None
    with r show ?thesis by simp
  next
    case (Some e)
    with r getLocally_zero_on_error[of ops g w key v e g' w'] show ?thesis by simp
  qed
qed

lemma load_no_picker:
  "peers g = None \<Longrightarrow> load ops g w key = getLocally ops g w key"
  by (simp add: load_def Do_def getLocally_norm)

lemma load_unresolved:
  "peers g = Some pick \<Longrightarrow> pick key = (peer, False, isSelf) \<Longrightarrow>
   load ops g w key = getLocally ops g w key"
  by (simp add: load_def Do_def getLocally_norm)

lemma load_self_hit:
  "peers g = Some pick \<Longrightarrow> pick key = (peer, True, True) \<Longrightarrow>
   cache_get ops (mainCache g) key = ((v, True), c1) \<Longrightarrow>
   load ops g w key = ((v, None), g\<lparr>mainCache := c1\<rparr>, w)"
  by (simp add: load_def Do_def)

lemma load_self_miss:
  "peers g = Some pick \<Longrightarrow> pick key = (peer, True, True) \<Longrightarrow>
   cache_get ops (mainCache g) key = ((v, False), c1) \<Longrightarrow>
   load ops g w key = getLocally ops (g\<lparr>mainCache := c1\<rparr>) w key"
  by (simp add: load_def Do_def getLocally_norm)

lemma load_remote_ok:
  "peers g = Some pick \<Longrightarrow> pick key = (peer, True, False) \<Longrightarrow>
   peer_Get peer (name g) key = (bytes, None) \<Longrightarrow>
   load ops g w key =
     ((ByteView (Some (length (memory w))), None), g,
      w\<lparr>memory := memory w @ [slice_bytes (memory w) bytes]\<rparr>)"
  by (simp add: load_def Do_def getFromPeer_def cloneBytes_def)

lemma load_remote_failed:
  "peers g = Some pick \<Longrightarrow> pick key = (peer, True, False) \<Longrightarrow>
   peer_Get peer (name g) key = (bytes, Some pe) \<Longrightarrow>
   load ops g w key = getLocally ops g w key"
  by (simp add: load_def Do_def getFromPeer_def getLocally_norm)

lemma load_error:
  "snd (fst (load ops g w key)) = Some e \<longleftrightarrow>
     loads (snd (snd (load ops g w key))) = loads w @ [key] \<and>
     \<not> fst (snd (getter g key)) \<and> e = NotFound"
proof (cases "peers g")
  case None
  then show ?thesis by (simp add: load_no_picker getLocally_error_loads)
next
  case (Some pick)
  obtain peer ok isSelf where pk: "pick key = (peer, ok, isSelf)"
    by (metis prod.collapse)
  show ?thesis
  proof (cases ok)
    case False
    with Some pk show ?thesis by (simp add: load_unresolved getLocally_error_loads)
  next
    case True
    note ok = this
    show ?thesis
    proof (cases isSelf)
      case True
      obtain v hit c1 where cg: "cache_get ops (mainCache g) key = ((v, hit), c1)"
        by (metis prod.collapse)
      show ?thesis
      proof (cases hit)
        case True
        with Some pk ok \<open>isSelf\<close> cg show ?thesis by (simp add: load_self_hit)
      next
        case False
        with Some pk ok \<open>isSelf\<close> cg
        have "load ops g w key = getLocally ops (g\<lparr>mainCache := c1\<rparr>) w key"
          by (simp add: load_self_miss)
        then show ?thesis
          using getLocally_error_loads[of ops "g\<lparr>mainCache := c1\<rparr>" w key e] by simp
      qed
    next
      case False
      obtain bytes err where pg: "peer_Get peer (name g) key = (bytes, err)"
        by (metis prod.collapse)
      show ?thesis
      proof (cases err)
        case None
        with Some pk ok False pg show ?thesis by (simp add: load_remote_ok)
      next
        case (Some pe)
        with \<open>peers g = Some pick\<close> pk ok False pg show ?thesis
          by (simp add: load_remote_failed getLocally_error_loads)
      qed
    qed
  qed
qed

lemmas group_eval = Group_Get_def load_def Do_def getLocally_def getFromPeer_def cloneBytes_def
  Group_Delete_def deleteFromPeer_def table_ops_def demo_getter_def down_peer_def
  remote_picker_def self_picker_def no_peers_picker_def demo_group_def demo_world_def
  InvalidKey_def NotFound_def IsZero_def slice_bytes_def Let_def

text \<open>
  Claim C2. \<^verbatim>\<open>Get\<close> returns an error in exactly two cases: the key is empty, and
  the error is InvalidKey; or the key is not empty, the run reached the loader (the key
  was appended to the loader's invocations) and the loader found nothing, and the error
  is NotFound. When the owner is a remote peer and its get fails, \<^verbatim>\<open>Get\<close> is the
  local path, whatever error the peer gave; when the peer's get succeeds, \<^verbatim>\<open>Get\<close>
  succeeds. So \<^verbatim>\<open>Get\<close> on a key fails only when the local load fails, after the peer
  (if one was asked) has failed too.
\<close>

theorem Group_Get_errors:
  "(snd (fst (Group_Get ops g w key)) = Some e \<longleftrightarrow>
      (key = [] \<and> e = InvalidKey) \<or>
      (key \<noteq> [] \<and> loads (snd (snd (Group_Get ops g w key))) = loads w @ [key] \<and>
       \<not> fst (snd (getter g key)) \<and> e = NotFound)) \<and>
   (key \<noteq> [] \<and> peers g = Some pick \<and> pick key = (peer, True, False) \<and>
    peer_Get peer (name g) key = (bytes, Some pe) \<longrightarrow>
      Group_Get ops g w key = getLocally ops g w key) \<and>
   (key \<noteq> [] \<and> peers g = Some pick \<and> pick key = (peer, True, False) \<and>
    peer_Get peer (name g) key = (bytes, None) \<longrightarrow>
      snd (fst (Group_Get ops g w key)) = None)"
proof (cases "key = []")
  case True
  then show ?thesis by (auto simp: Group_Get_def)
next
  case False
  then have G: "Group_Get ops g w key = load ops g w key" by (simp add: Group_Get_def)
  show ?thesis
    unfolding G
    using False load_error[of ops g w key e]
      load_remote_failed[of g pick key peer bytes pe ops w]
      load_remote_ok[of g pick key peer bytes ops w]
    by simp
qed

theorem Group_Get_errors_witness:
  "snd (fst (Group_Get table_ops (demo_group\<lparr>peers := Some remote_picker\<rparr>) demo_world ''zap''))
     = Some NotFound \<and>
   loads (snd (snd (Group_Get table_ops (demo_group\<lparr>peers := Some remote_picker\<rparr>) demo_world ''zap'')))
     = [''zap''] \<and>
   peer_Get down_peer ''scores'' ''zap'' = (None, Some (Errorf ''peer down'')) \<and>
   Group_Get table_ops (demo_group\<lparr>peers := Some remote_picker\<rparr>) demo_world ''zap''
     = getLocally table_ops (demo_group\<lparr>peers := Some remote_picker\<rparr>) demo_world ''zap'' \<and>
   snd (fst (Group_Get table_ops (demo_group\<lparr>peers := Some remote_picker\<rparr>) demo_world ''foo''))
     = None"
  using Group_Get_errors[of table_ops "demo_group\<lparr>peers := Some remote_picker\<rparr>" demo_world
      "''zap''" NotFound remote_picker down_peer None "Errorf ''peer down''"]
  by (simp add: group_eval)




text \<open>
  The local path on a store miss with a loader that finds the key; a run of \<^verbatim>\<open>load\<close>
  that invoked the loader went through the local path and missed the store there; and
  the example store and loader.
\<close>

lemma getLocally_miss_found:
  assumes miss: "cache_get ops (mainCache g) key = ((v0, False), c1)"
    and ld: "getter g key = (bytes, True, expirationTime)"
  shows "getLocally ops g w key =
           ((ByteView (Some (length (memory w))), None),
            g\<lparr>mainCache :=
                (if IsZero expirationTime
                 then cache_add ops c1 key (ByteView (Some (length (memory w))))
                 else cache_addWithExpiration ops c1 key (ByteView (Some (length (memory w))))
                        expirationTime)\<rparr>,
            w\<lparr>loads := loads w @ [key],
              memory := memory w @ [slice_bytes (memory w) bytes]\<rparr>)"
  using miss ld by (simp add: getLocally_def cloneBytes_def Let_def)

lemma getLocally_reached_miss:
  "loads (snd (snd (getLocally ops g w key))) = loads w @ [key] \<Longrightarrow>
   \<not> snd (fst (cache_get ops (mainCache g) key))"
  by (simp add: getLocally_loads split: if_splits)

lemma load_reached:
  assumes reach: "loads (snd (snd (load ops g w key))) = loads w @ [key]"
  shows "load ops g w key =
           getLocally ops
             (g\<lparr>mainCache :=
                 (case peers g of
                    None \<Rightarrow> mainCache g
                  | Some pick \<Rightarrow>
                      (case pick key of
                         (peer, ok, isSelf) \<Rightarrow>
                           if ok \<and> isSelf then snd (cache_get ops (mainCache g) key)
                           else mainCache g))\<rparr>) w key"
proof (cases "peers g")
  case None
  then show ?thesis by (simp add: load_no_picker)
next
  case (Some pick)
  obtain peer ok isSelf where pk: "pick key = (peer, ok, isSelf)"
    by (metis prod.collapse)
  show ?thesis
  proof (cases ok)
    case False
    with Some pk show ?thesis by (simp add: load_unresolved)
  next
    case True
    note ok = this
    show ?thesis
    proof (cases isSelf)
      case True
      obtain v hit c0 where cg: "cache_get ops (mainCache g) key = ((v, hit), c0)"
        by (metis prod.collapse)
      show ?thesis
      proof (cases hit)
        case True
        with Some pk ok \<open>isSelf\<close> cg reach show ?thesis by (simp add: load_self_hit)
      next
        case False
        with Some pk ok \<open>isSelf\<close> cg show ?thesis by (simp add: load_self_miss)
      qed
    next
      case False
      obtain pb err where pg: "peer_Get peer (name g) key = (pb, err)"
        by (metis prod.collapse)
      show ?thesis
      proof (cases err)
        case None
        with Some pk ok False pg reach show ?thesis by (simp add: load_remote_ok)
      next
        case (Some pe)
        with \<open>peers g = Some pick\<close> pk ok False pg show ?thesis
          by (simp add: load_remote_failed)
      qed
    qed
  qed
qed

lemma demo_fields:
  "getter demo_group = demo_getter" "mainCache demo_group = []" "peers demo_group = None"
  "name demo_group = ''scores''"
  by (simp_all add: demo_group_def)

lemma demo_loads:
  "demo_getter ''foo'' = (Some 0, True, 0)" "demo_getter ''tmp'' = (Some 0, True, 99)"
  by (simp_all add: demo_getter_def)

lemma table_miss:
  "cache_get table_ops [] k = ((ByteView None, False), [])"
  by (simp add: table_ops_def)

lemma table_adds:
  "cache_add table_ops [] k v = [(k, v, None)]"
  "cache_addWithExpiration table_ops [] k v t = [(k, v, Some t)]"
  by (simp_all add: table_ops_def)

text \<open>
  Claim C7. Let the loader return \<^verbatim>\<open>(bytes, true, expiration)\<close> for a key that is
  not empty. Whenever the store misses the key, the local path returns, with no error,
  a view on a new buffer that holds the loader's bytes, and stores that view under the
  key: with \<^verbatim>\<open>addWithExpiration\<close> and the given expiration when the expiration is not
  the zero time, with \<^verbatim>\<open>add\<close> when it is. \<^verbatim>\<open>Get\<close> does exactly this on each of its
  paths to the loader: with no picker, with a picker that answers \<^verbatim>\<open>ok = false\<close>,
  after a remote peer's get has failed, and on the owner's path after the store missed
  twice (the second miss on the store as the first left it); and on every run that
  invoked the loader, however it got there. The store the entry is added to is the
  store as the last lookup left it. Whatever is written afterwards to a buffer that
  existed before the call, the loader's own among them, the returned and stored view
  still reads the bytes the loader returned.
\<close>

theorem Group_Get_stores_clone:
  fixes ops :: "'c cache_ops" and g :: "'c Group" and w :: world and key :: string
    and bytes :: slice and expirationTime :: time
  defines "bw \<equiv> ByteView (Some (length (memory w)))"
    and "c0 \<equiv> (case peers g of
                  None \<Rightarrow> mainCache g
                | Some pick \<Rightarrow>
                    (case pick key of
                       (peer, ok, isSelf) \<Rightarrow>
                         if ok \<and> isSelf then snd (cache_get ops (mainCache g) key)
                         else mainCache g))"
  defines "res \<equiv> \<lambda>c.
             ((bw, None),
              g\<lparr>mainCache := (if IsZero expirationTime then cache_add ops c key bw
                               else cache_addWithExpiration ops c key bw expirationTime)\<rparr>,
              w\<lparr>loads := loads w @ [key],
                memory := memory w @ [slice_bytes (memory w) bytes]\<rparr>)"
  assumes key: "key \<noteq> []"
    and ld: "getter g key = (bytes, True, expirationTime)"
  shows "(cache_get ops (mainCache g) key = ((v0, False), c) \<longrightarrow>
            getLocally ops g w key = res c) \<and>
         (peers g = None \<and> cache_get ops (mainCache g) key = ((v0, False), c) \<longrightarrow>
            Group_Get ops g w key = res c) \<and>
         (peers g = Some pick \<and> pick key = (peer, False, isSelf) \<and>
          cache_get ops (mainCache g) key = ((v0, False), c) \<longrightarrow>
            Group_Get ops g w key = res c) \<and>
         (peers g = Some pick \<and> pick key = (peer, True, False) \<and>
          peer_Get peer (name g) key = (pb, Some pe) \<and>
          cache_get ops (mainCache g) key = ((v0, False), c) \<longrightarrow>
            Group_Get ops g w key = res c) \<and>
         (peers g = Some pick \<and> pick key = (peer, True, True) \<and>
          cache_get ops (mainCache g) key = ((v0, False), c) \<and>
          cache_get ops c key = ((v1, False), c') \<longrightarrow>
            Group_Get ops g w key = res c') \<and>
         (loads (snd (snd (Group_Get ops g w key))) = loads w @ [key] \<longrightarrow>
            Group_Get ops g w key = res (snd (cache_get ops c0 key))) \<and>
         view_bytes (memory w @ [slice_bytes (memory w) bytes]) bw = slice_bytes (memory w) bytes \<and>
         (\<forall>r bs. r < length (memory w) \<longrightarrow>
            view_bytes ((memory w @ [slice_bytes (memory w) bytes])[r := bs]) bw
              = slice_bytes (memory w) bytes)"
proof -
  have G: "Group_Get ops g w key = load ops g w key" using key by (simp add: Group_Get_def)
  have loc: "getLocally ops g' w key = res cm"
    if "cache_get ops (mainCache g') key = ((vm, False), cm)" "g' = g\<lparr>mainCache := cx\<rparr>"
    for g' vm cm cx
  proof -
    have "getter g' key = (bytes, True, expirationTime)" using ld that(2) by simp
    from getLocally_miss_found[OF that(1) this, of w] show ?thesis
      by (simp add: res_def bw_def that(2))
  qed
  have gg: "g = g\<lparr>mainCache := mainCache g\<rparr>" by simp
  have 1: "getLocally ops g w key = res c"
    if "cache_get ops (mainCache g) key = ((v0, False), c)"
    using loc[OF that gg] .
  have 2: "Group_Get ops g w key = res c"
    if "peers g = None" "cache_get ops (mainCache g) key = ((v0, False), c)"
    unfolding G load_no_picker[OF that(1)] by (rule 1[OF that(2)])
  have 3: "Group_Get ops g w key = res c"
    if "peers g = Some pick" "pick key = (peer, False, isSelf)"
       "cache_get ops (mainCache g) key = ((v0, False), c)"
    unfolding G load_unresolved[OF that(1,2)] by (rule 1[OF that(3)])
  have 4: "Group_Get ops g w key = res c"
    if "peers g = Some pick" "pick key = (peer, True, False)"
       "peer_Get peer (name g) key = (pb, Some pe)"
       "cache_get ops (mainCache g) key = ((v0, False), c)"
    unfolding G load_remote_failed[OF that(1,2,3)] by (rule 1[OF that(4)])
  have 5: "Group_Get ops g w key = res c'"
    if "peers g = Some pick" "pick key = (peer, True, True)"
       "cache_get ops (mainCache g) key = ((v0, False), c)"
       "cache_get ops c key = ((v1, False), c')"
  proof -
    have "cache_get ops (mainCache (g\<lparr>mainCache := c\<rparr>)) key = ((v1, False), c')"
      using that(4) by simp
    from loc[OF this refl] show ?thesis
      unfolding G load_self_miss[OF that(1,2,3)] .
  qed
  have 6: "Group_Get ops g w key = res (snd (cache_get ops c0 key))"
    if reach: "loads (snd (snd (Group_Get ops g w key))) = loads w @ [key]"
  proof -
    let ?g0 = "g\<lparr>mainCache := c0\<rparr>"
    have L: "load ops g w key = getLocally ops ?g0 w key"
      using load_reached[of ops g w key] reach unfolding G c0_def by simp
    have "\<not> snd (fst (cache_get ops c0 key))"
      using getLocally_reached_miss[of ops ?g0 w key] reach unfolding G L by simp
    then have "cache_get ops (mainCache ?g0) key
        = ((fst (fst (cache_get ops c0 key)), False), snd (cache_get ops c0 key))"
      by (simp add: prod_eq_iff)
    from loc[OF this refl] show ?thesis unfolding G L .
  qed
  have 7: "view_bytes (memory w @ [slice_bytes (memory w) bytes]) bw = slice_bytes (memory w) bytes"
    by (simp add: bw_def slice_bytes_def)
  have 8: "view_bytes ((memory w @ [slice_bytes (memory w) bytes])[r := bs]) bw
      = slice_bytes (memory w) bytes" if "r < length (memory w)" for r bs
    using that by (simp add: bw_def slice_bytes_def[of _ "Some _"] list_update_append nth_append)
  from 1 2 3 4 5 6 7 8 show ?thesis by blast
qed

theorem Group_Get_stores_clone_witness:
  "Group_Get table_ops demo_group demo_world ''foo'' =
     ((ByteView (Some 1), None),
      demo_group\<lparr>mainCache := [(''foo'', ByteView (Some 1), None)]\<rparr>,
      \<lparr>memory = [[98, 97, 114], [98, 97, 114]], loads = [''foo'']\<rparr>) \<and>
   Group_Get table_ops (demo_group\<lparr>peers := Some self_picker\<rparr>) demo_world ''tmp'' =
     ((ByteView (Some 1), None),
      demo_group\<lparr>mainCache := [(''tmp'', ByteView (Some 1), Some 99)], peers := Some self_picker\<rparr>,
      \<lparr>memory = [[98, 97, 114], [98, 97, 114]], loads = [''tmp'']\<rparr>) \<and>
   Group_Get table_ops (demo_group\<lparr>peers := Some no_peers_picker\<rparr>) demo_world ''tmp'' =
     ((ByteView (Some 1), None),
      demo_group\<lparr>mainCache := [(''tmp'', ByteView (Some 1), Some 99)], peers := Some no_peers_picker\<rparr>,
      \<lparr>memory = [[98, 97, 114], [98, 97, 114]], loads = [''tmp'']\<rparr>) \<and>
   Group_Get table_ops (demo_group\<lparr>peers := Some remote_picker\<rparr>) demo_world ''foo'' =
     ((ByteView (Some 1), None),
      demo_group\<lparr>mainCache := [(''foo'', ByteView (Some 1), None)], peers := Some remote_picker\<rparr>,
      \<lparr>memory = [[98, 97, 114], [98, 97, 114]], loads = [''foo'']\<rparr>) \<and>
   getLocally table_ops demo_group demo_world ''tmp'' =
     ((ByteView (Some 1), None),
      demo_group\<lparr>mainCache := [(''tmp'', ByteView (Some 1), Some 99)]\<rparr>,
      \<lparr>memory = [[98, 97, 114], [98, 97, 114]], loads = [''tmp'']\<rparr>) \<and>
   view_bytes ([[98, 97, 114], [98, 97, 114]][0 := [0, 0, 0]]) (ByteView (Some 1)) = [98, 97, 114]"
proof -
  have kf: "''foo'' \<noteq> []" and kt: "''tmp'' \<noteq> []" by simp_all
  have lf: "getter g' ''foo'' = (Some 0, True, 0)" and lt: "getter g' ''tmp'' = (Some 0, True, 99)"
    if "getter g' = demo_getter" for g' :: "table Group"
    using that by (simp_all add: demo_loads)
  have gt: "getter demo_group = demo_getter"
    "getter (demo_group\<lparr>peers := Some self_picker\<rparr>) = demo_getter"
    "getter (demo_group\<lparr>peers := Some no_peers_picker\<rparr>) = demo_getter"
    "getter (demo_group\<lparr>peers := Some remote_picker\<rparr>) = demo_getter"
    by (simp_all add: demo_fields)
  have m0: "cache_get table_ops (mainCache demo_group) k = ((ByteView None, False), [])" for k
    by (simp add: demo_fields table_miss)
  have ms: "cache_get table_ops (mainCache (demo_group\<lparr>peers := p\<rparr>)) k = ((ByteView None, False), [])"
    for k p
    by (simp add: demo_fields table_miss)
  have m1: "cache_get table_ops [] k = ((ByteView None, False), [])" for k
    by (rule table_miss)
  have p0: "peers demo_group = None" by (rule demo_fields)
  have ps: "peers (demo_group\<lparr>peers := Some p\<rparr>) = Some p" for p by simp
  have qs: "self_picker ''tmp'' = (down_peer, True, True)" by (simp add: self_picker_def)
  have qn: "no_peers_picker ''tmp'' = (down_peer, False, False)" by (simp add: no_peers_picker_def)
  have qr: "remote_picker ''foo'' = (down_peer, True, False)" by (simp add: remote_picker_def)
  have pg: "peer_Get down_peer (name (demo_group\<lparr>peers := Some remote_picker\<rparr>)) ''foo''
      = (None, Some (Errorf ''peer down''))"
    by (simp add: down_peer_def)
  have a: "Group_Get table_ops demo_group demo_world ''foo'' =
     ((ByteView (Some (length (memory demo_world))), None),
      demo_group\<lparr>mainCache :=
          (if IsZero 0 then cache_add table_ops [] ''foo'' (ByteView (Some (length (memory demo_world))))
           else cache_addWithExpiration table_ops [] ''foo'' (ByteView (Some (length (memory demo_world)))) 0)\<rparr>,
      demo_world\<lparr>loads := loads demo_world @ [''foo''],
           memory := memory demo_world @ [slice_bytes (memory demo_world) (Some 0)]\<rparr>)"
    using Group_Get_stores_clone[OF kf lf[OF gt(1)], where ops = table_ops and w = demo_world
        and ?v0.0 = "ByteView None" and c = "[]"]
      m0 p0
    by blast
  have b: "Group_Get table_ops (demo_group\<lparr>peers := Some self_picker\<rparr>) demo_world ''tmp'' =
     ((ByteView (Some (length (memory demo_world))), None),
      (demo_group\<lparr>peers := Some self_picker\<rparr>)\<lparr>mainCache :=
          (if IsZero 99 then cache_add table_ops [] ''tmp'' (ByteView (Some (length (memory demo_world))))
           else cache_addWithExpiration table_ops [] ''tmp'' (ByteView (Some (length (memory demo_world)))) 99)\<rparr>,
      demo_world\<lparr>loads := loads demo_world @ [''tmp''],
           memory := memory demo_world @ [slice_bytes (memory demo_world) (Some 0)]\<rparr>)"
    using Group_Get_stores_clone[OF kt lt[OF gt(2)], where ops = table_ops and w = demo_world
        and ?v0.0 = "ByteView None" and c = "[]"
        and ?v1.0 = "ByteView None" and c' = "[]" and pick = self_picker and peer = down_peer]
      ms m1 ps qs
    by blast
  have c: "Group_Get table_ops (demo_group\<lparr>peers := Some no_peers_picker\<rparr>) demo_world ''tmp'' =
     ((ByteView (Some (length (memory demo_world))), None),
      (demo_group\<lparr>peers := Some no_peers_picker\<rparr>)\<lparr>mainCache :=
          (if IsZero 99 then cache_add table_ops [] ''tmp'' (ByteView (Some (length (memory demo_world))))
           else cache_addWithExpiration table_ops [] ''tmp'' (ByteView (Some (length (memory demo_world)))) 99)\<rparr>,
      demo_world\<lparr>loads := loads demo_world @ [''tmp''],
           memory := memory demo_world @ [slice_bytes (memory demo_world) (Some 0)]\<rparr>)"
    using Group_Get_stores_clone[OF kt lt[OF gt(3)], where ops = table_ops and w = demo_world
        and ?v0.0 = "ByteView None" and c = "[]"
        and pick = no_peers_picker and peer = down_peer and isSelf = False]
      ms ps qn
    by blast
  have d: "Group_Get table_ops (demo_group\<lparr>peers := Some remote_picker\<rparr>) demo_world ''foo'' =
     ((ByteView (Some (length (memory demo_world))), None),
      (demo_group\<lparr>peers := Some remote_picker\<rparr>)\<lparr>mainCache :=
          (if IsZero 0 then cache_add table_ops [] ''foo'' (ByteView (Some (length (memory demo_world))))
           else cache_addWithExpiration table_ops [] ''foo'' (ByteView (Some (length (memory demo_world)))) 0)\<rparr>,
      demo_world\<lparr>loads := loads demo_world @ [''foo''],
           memory := memory demo_world @ [slice_bytes (memory demo_world) (Some 0)]\<rparr>)"
    using Group_Get_stores_clone[OF kf lf[OF gt(4)], where ops = table_ops and w = demo_world
        and ?v0.0 = "ByteView None" and c = "[]"
        and pick = remote_picker and peer = down_peer and pb = None
        and pe = "Errorf ''peer down''"]
      ms ps qr pg
    by blast
  have e: "getLocally table_ops demo_group demo_world ''tmp'' =
     ((ByteView (Some (length (memory demo_world))), None),
      demo_group\<lparr>mainCache :=
          (if IsZero 99 then cache_add table_ops [] ''tmp'' (ByteView (Some (length (memory demo_world))))
           else cache_addWithExpiration table_ops [] ''tmp'' (ByteView (Some (length (memory demo_world)))) 99)\<rparr>,
      demo_world\<lparr>loads := loads demo_world @ [''tmp''],
           memory := memory demo_world @ [slice_bytes (memory demo_world) (Some 0)]\<rparr>)"
    using Group_Get_stores_clone[OF kt lt[OF gt(1)], where ops = table_ops and w = demo_world
        and ?v0.0 = "ByteView None" and c = "[]"]
      m0
    by blast
  have f: "view_bytes ((memory demo_world @ [slice_bytes (memory demo_world) (Some 0)])[0 := [0, 0, 0]])
       (ByteView (Some (length (memory demo_world)))) = slice_bytes (memory demo_world) (Some 0)"
  proof -
    have "(0::nat) < length (memory demo_world)" by (simp add: demo_world_def)
    with Group_Get_stores_clone[OF kf lf[OF gt(1)], where ops = table_ops and w = demo_world]
    show ?thesis by blast
  qed
  note ev = table_adds IsZero_def demo_world_def slice_bytes_def
  from a b c d e f show ?thesis
    by (simp add: ev)
qed

subsection \<open>Delete\<close>

text \<open>
  Claim C3. \<^verbatim>\<open>Delete("")\<close> returns the flag \<^verbatim>\<open>true\<close> together with the InvalidKey
  error, and the group, its store included, is as it was.
\<close>

theorem Group_Delete_empty_key:
  "Group_Delete ops g [] = ((True, Some InvalidKey), g)"
  by (simp add: Group_Delete_def)

text \<open>
  Claim C8 says that with a remote owner \<^verbatim>\<open>Delete\<close> hands on the peer's result and
  error as they are. It does not when the peer returns \<^verbatim>\<open>true\<close> with an error:
  \<^verbatim>\<open>deleteFromPeer\<close> returns \<^verbatim>\<open>false\<close> with every error.
\<close>

theorem Group_Delete_remote_flag:
  "peers (demo_group\<lparr>peers := Some remote_picker\<rparr>) = Some remote_picker \<and>
   remote_picker ''k1'' = (down_peer, True, False) \<and>
   peer_Delete down_peer ''scores'' ''k1'' = (True, Some (Errorf ''peer down'')) \<and>
   fst (Group_Delete table_ops (demo_group\<lparr>peers := Some remote_picker\<rparr>) ''k1'')
     = (False, Some (Errorf ''peer down'')) \<and>
   fst (Group_Delete table_ops (demo_group\<lparr>peers := Some remote_picker\<rparr>) ''k1'')
     \<noteq> peer_Delete down_peer (name (demo_group\<lparr>peers := Some remote_picker\<rparr>)) ''k1''"
  by (simp add: group_eval)

text \<open>
  Claim C8, amended. For a key that is not empty: with no picker, \<^verbatim>\<open>Delete\<close> deletes
  from the store and returns whether something was removed; when the picker answers
  \<^verbatim>\<open>ok = false\<close> it returns \<^verbatim>\<open>false\<close> and no error, the group untouched; when the
  owner is this process it deletes from the store; when the owner is a remote peer it
  calls the peer's delete for the group's name and the key, leaves the group untouched,
  and returns the peer's error as it is and the peer's flag when there is no error, the
  flag \<^verbatim>\<open>false\<close> when there is one.
\<close>

theorem Group_Delete_cases:
  assumes "key \<noteq> []"
  shows "(peers g = None \<longrightarrow>
            Group_Delete ops g key =
              ((fst (cache_delete ops (mainCache g) key), None),
               g\<lparr>mainCache := snd (cache_delete ops (mainCache g) key)\<rparr>)) \<and>
         (peers g = Some pick \<and> pick key = (peer, False, isSelf) \<longrightarrow>
            Group_Delete ops g key = ((False, None), g)) \<and>
         (peers g = Some pick \<and> pick key = (peer, True, True) \<longrightarrow>
            Group_Delete ops g key =
              ((fst (cache_delete ops (mainCache g) key), None),
               g\<lparr>mainCache := snd (cache_delete ops (mainCache g) key)\<rparr>)) \<and>
         (peers g = Some pick \<and> pick key = (peer, True, False) \<longrightarrow>
            Group_Delete ops g key =
              ((if snd (peer_Delete peer (name g) key) = None
                then fst (peer_Delete peer (name g) key) else False,
                snd (peer_Delete peer (name g) key)), g))"
  using assms by (auto simp: Group_Delete_def deleteFromPeer_def split: prod.splits)

theorem Group_Delete_cases_witness:
  "''k1'' \<noteq> [] \<and>
   Group_Delete table_ops (demo_group\<lparr>mainCache := [(''k1'', ByteView (Some 0), None)]\<rparr>) ''k1''
     = ((True, None), demo_group) \<and>
   Group_Delete table_ops
      (demo_group\<lparr>mainCache := [(''k1'', ByteView (Some 0), None)], peers := Some no_peers_picker\<rparr>) ''k1''
     = ((False, None),
        demo_group\<lparr>mainCache := [(''k1'', ByteView (Some 0), None)], peers := Some no_peers_picker\<rparr>) \<and>
   Group_Delete table_ops
      (demo_group\<lparr>mainCache := [(''k1'', ByteView (Some 0), None)], peers := Some self_picker\<rparr>) ''k1''
     = ((True, None), demo_group\<lparr>peers := Some self_picker\<rparr>) \<and>
   Group_Delete table_ops
      (demo_group\<lparr>mainCache := [(''k1'', ByteView (Some 0), None)], peers := Some remote_picker\<rparr>) ''k1''
     = ((False, Some (Errorf ''peer down'')),
        demo_group\<lparr>mainCache := [(''k1'', ByteView (Some 0), None)], peers := Some remote_picker\<rparr>)"
proof -
  have k: "''k1'' \<noteq> []" by simp
  let ?c = "[(''k1'', ByteView (Some 0), None)] :: table"
  show ?thesis
    using k
      Group_Delete_cases[OF k, where g = "demo_group\<lparr>mainCache := ?c\<rparr>" and ops = table_ops]
      Group_Delete_cases[OF k, where g = "demo_group\<lparr>mainCache := ?c, peers := Some no_peers_picker\<rparr>"
        and pick = no_peers_picker and peer = down_peer and isSelf = False and ops = table_ops]
      Group_Delete_cases[OF k, where g = "demo_group\<lparr>mainCache := ?c, peers := Some self_picker\<rparr>"
        and pick = self_picker and peer = down_peer and ops = table_ops]
      Group_Delete_cases[OF k, where g = "demo_group\<lparr>mainCache := ?c, peers := Some remote_picker\<rparr>"
        and pick = remote_picker and peer = down_peer and ops = table_ops]
    by (simp add: table_ops_def demo_group_def down_peer_def remote_picker_def self_picker_def
          no_peers_picker_def)
qed

subsection \<open>Registration\<close>

lemma getLocally_keeps_peers: "peers (fst (snd (getLocally ops g w key))) = peers g"
  by (simp add: getLocally_def cloneBytes_def Let_def split: prod.splits)

lemma load_keeps_peers: "peers (fst (snd (load ops g w key))) = peers g"
proof (cases "peers g")
  case None
  then show ?thesis by (simp add: load_no_picker getLocally_keeps_peers)
next
  case (Some pick)
  obtain peer ok isSelf where pk: "pick key = (peer, ok, isSelf)"
    by (metis prod.collapse)
  show ?thesis
  proof (cases ok)
    case False
    with Some pk show ?thesis by (simp add: load_unresolved getLocally_keeps_peers)
  next
    case True
    note ok = this
    show ?thesis
    proof (cases isSelf)
      case True
      obtain v hit c1 where cg: "cache_get ops (mainCache g) key = ((v, hit), c1)"
        by (metis prod.collapse)
      show ?thesis
      proof (cases hit)
        case True
        with Some pk ok \<open>isSelf\<close> cg show ?thesis by (simp add: load_self_hit)
      next
        case False
        with Some pk ok \<open>isSelf\<close> cg
        have "load ops g w key = getLocally ops (g\<lparr>mainCache := c1\<rparr>) w key"
          by (simp add: load_self_miss)
        then show ?thesis by (simp add: getLocally_keeps_peers)
      qed
    next
      case False
      obtain bytes err where pg: "peer_Get peer (name g) key = (bytes, err)"
        by (metis prod.collapse)
      show ?thesis
      proof (cases err)
        case None
        with Some pk ok False pg show ?thesis by (simp add: load_remote_ok)
      next
        case (Some pe)
        with \<open>peers g = Some pick\<close> pk ok False pg show ?thesis
          by (simp add: load_remote_failed getLocally_keeps_peers)
      qed
    qed
  qed
qed

lemma Group_Get_keeps_peers: "peers (fst (snd (Group_Get ops g w key))) = peers g"
  by (simp add: Group_Get_def load_keeps_peers)

lemma Group_Delete_keeps_peers: "peers (snd (Group_Delete ops g key)) = peers g"
  by (simp add: Group_Delete_def split: option.splits prod.splits)

lemma after_call_keeps_picker:
  "peers g = Some p \<Longrightarrow> peers (after_call ops g c) = Some p"
  by (cases c) (simp_all add: RegisterPeers_def Group_Get_keeps_peers Group_Delete_keeps_peers)

lemma after_calls_keep_picker:
  "peers g = Some p \<Longrightarrow> peers (foldl (after_call ops) g calls) = Some p"
  by (induction calls arbitrary: g) (simp_all add: after_call_keeps_picker)

text \<open>
  Claim C9 says that a second call of \<^verbatim>\<open>RegisterPeers\<close> on a group aborts. The guard
  is \<^verbatim>\<open>g.peers != nil\<close>: after a first call that passed the nil picker the field is
  still nil, and a second call returns.
\<close>

theorem RegisterPeers_after_nil:
  "RegisterPeers demo_group None = Inr demo_group \<and>
   RegisterPeers demo_group (Some self_picker) = Inr (demo_group\<lparr>peers := Some self_picker\<rparr>)"
  by (simp add: RegisterPeers_def demo_group_def)

text \<open>
  Claim C9, amended. \<^verbatim>\<open>NewGroup\<close> with a nil loader panics and leaves the table of
  groups as it was; the group it makes otherwise has no picker. \<^verbatim>\<open>RegisterPeers\<close>
  panics on a group whose picker is set, so after a call that set a picker every
  further call panics, whatever it passes; and once a picker is set, no sequence of calls
  on the group changes it. Both aborts are panics, not error results.
\<close>

theorem misconfigured_group_aborts:
  "NewGroup ops groups nm cacheBytes None = (Inl (PanicMsg ''nil Getter''), groups) \<and>
   (NewGroup ops groups nm cacheBytes (Some gt) = (Inr g0, groups') \<longrightarrow> peers g0 = None) \<and>
   (RegisterPeers g1 (Some p1) = Inr g2 \<longrightarrow>
      RegisterPeers g2 q = Inl (PanicMsg ''RegisterPeerPicker called multiple times'')) \<and>
   (peers g = Some p \<longrightarrow>
      RegisterPeers g q = Inl (PanicMsg ''RegisterPeerPicker called multiple times'') \<and>
      peers (foldl (after_call ops) g calls) = Some p)"
  using after_calls_keep_picker[of g p ops calls]
  by (auto simp: NewGroup_def RegisterPeers_def Let_def split: if_splits)

theorem misconfigured_group_aborts_witness:
  "NewGroup table_ops (\<lambda>_. None) ''scores'' 64 None = (Inl (PanicMsg ''nil Getter''), (\<lambda>_. None)) \<and>
   NewGroup table_ops (\<lambda>_. None) ''scores'' 64 (Some demo_getter)
     = (Inr demo_group, [''scores'' \<mapsto> demo_group]) \<and>
   peers demo_group = None \<and>
   RegisterPeers demo_group (Some self_picker) = Inr (demo_group\<lparr>peers := Some self_picker\<rparr>) \<and>
   RegisterPeers (demo_group\<lparr>peers := Some self_picker\<rparr>) (Some remote_picker)
     = Inl (PanicMsg ''RegisterPeerPicker called multiple times'') \<and>
   peers (foldl (after_call table_ops) (demo_group\<lparr>peers := Some self_picker\<rparr>)
            [Call_RegisterPeers (Some remote_picker), Call_Get demo_world ''foo'',
             Call_Delete ''foo'', Call_RegisterPeers None])
     = Some self_picker"
proof -
  have n: "NewGroup table_ops (\<lambda>_. None) ''scores'' 64 (Some demo_getter)
     = (Inr demo_group, [''scores'' \<mapsto> demo_group])"
    by (simp add: NewGroup_def demo_group_def table_ops_def Let_def)
  have r: "RegisterPeers demo_group (Some self_picker) = Inr (demo_group\<lparr>peers := Some self_picker\<rparr>)"
    by (simp add: RegisterPeers_def demo_group_def)
  have p: "peers (demo_group\<lparr>peers := Some self_picker\<rparr>) = Some self_picker" by simp
  note T = misconfigured_group_aborts[where ops = table_ops and groups = "\<lambda>_. None" and nm = "''scores''"
        and cacheBytes = 64 and gt = demo_getter and ?g0.0 = demo_group
        and groups' = "[''scores'' \<mapsto> demo_group]"
        and ?g1.0 = demo_group and ?p1.0 = self_picker
        and ?g2.0 = "demo_group\<lparr>peers := Some self_picker\<rparr>"
        and g = "demo_group\<lparr>peers := Some self_picker\<rparr>" and p = self_picker
        and q = "Some remote_picker"
        and calls = "[Call_RegisterPeers (Some remote_picker), Call_Get demo_world ''foo'',
             Call_Delete ''foo'', Call_RegisterPeers None]"]
  from T have c1: "NewGroup table_ops (\<lambda>_. None) ''scores'' 64 None
      = (Inl (PanicMsg ''nil Getter''), (\<lambda>_. None))"
    by blast
  from T n have c2: "peers demo_group = None" by blast
  from T r have c3: "RegisterPeers (demo_group\<lparr>peers := Some self_picker\<rparr>) (Some remote_picker)
     = Inl (PanicMsg ''RegisterPeerPicker called multiple times'')"
    by blast
  from T p have c4: "peers (foldl (after_call table_ops) (demo_group\<lparr>peers := Some self_picker\<rparr>)
            [Call_RegisterPeers (Some remote_picker), Call_Get demo_world ''foo'',
             Call_Delete ''foo'', Call_RegisterPeers None])
     = Some self_picker"
    by blast
  from c1 n c2 r c3 c4 show ?thesis by blast
qed

end
